theory Spec2Isabelle
  imports Main "HOL-Library.AList" "HOL-Library.Multiset"
begin

section \<open>Values, errors and strings\<close>

text \<open>
  JavaScript payloads are modelled by a small JSON-like datatype. A thrown \<open>Error\<close> is
  represented by its message. Times are milliseconds since the epoch (\<open>Date.now()\<close>),
  time-to-live values are seconds, both as unbounded integers.
\<close>

datatype jsval =
    JNull
  | JBool bool
  | JNum int
  | JStr string
  | JArr "jsval list"
  | JObj "(string \<times> jsval) list"

type_synonym err = string

text \<open>\<open>String.prototype.includes\<close>: the pattern occurs as a contiguous substring.\<close>

fun startsWith :: "string \<Rightarrow> string \<Rightarrow> bool" where
  "startsWith s [] = True"
| "startsWith [] (p # ps) = False"
| "startsWith (c # cs) (p # ps) = (c = p \<and> startsWith cs ps)"

fun str_includes :: "string \<Rightarrow> string \<Rightarrow> bool" where
  "str_includes [] p = (p = [])"
| "str_includes (c # cs) p = (startsWith (c # cs) p \<or> str_includes cs p)"

text \<open>\<open>Array.isArray(x) && x.length === 0\<close>\<close>

fun isEmptyArray :: "jsval \<Rightarrow> bool" where
  "isEmptyArray (JArr xs) = (xs = [])"
| "isEmptyArray _ = False"

text \<open>
  The caller-supplied \<open>fetchFunction\<close> is an impure closure. Its outcome is a function
  of the number of caller-supplied functions invoked so far, so consecutive invocations
  may differ; \<open>Inl msg\<close> is a rejection with that message.
\<close>

type_synonym fetchFunction = "nat \<Rightarrow> err + jsval"

section \<open>L1: the in-memory cache (node-cache)\<close>

record cacheEntry =
  data :: jsval
  timestamp :: int

text \<open>
  The \<open>node-cache\<close> package is an external dependency; the cache object is modelled by
  the behaviour of the four operations the repository calls on it. An item is wrapped
  with its expiry instant (\<open>0\<close> means no expiry). The list \<open>entries\<close> is in the order
  in which \<open>keys()\<close> lists the keys: for keys that are not integer-like, as all keys
  this repository builds, that is the order of insertion, and overwriting keeps the
  position.
\<close>

record wrapped =
  stored :: cacheEntry
  livetime :: int

record nodeCache =
  entries :: "(string \<times> wrapped) list"
  maxKeys :: int

definition nc_keys :: "nodeCache \<Rightarrow> string list" where
  "nc_keys c = map fst (entries c)"

definition nc_del :: "nodeCache \<Rightarrow> string \<Rightarrow> nodeCache" where
  "nc_del c k = c\<lparr>entries := AList.delete k (entries c)\<rparr>"

text \<open>\<open>get\<close> returns \<open>undefined\<close> for a missing key, and deletes an expired item it meets.\<close>

definition nc_get :: "int \<Rightarrow> nodeCache \<Rightarrow> string \<Rightarrow> cacheEntry option \<times> nodeCache" where
  "nc_get now c k =
     (case map_of (entries c) k of
        None \<Rightarrow> (None, c)
      | Some w \<Rightarrow>
          if livetime w \<noteq> 0 \<and> livetime w < now then (None, nc_del c k)
          else (Some (stored w), c))"

text \<open>\<open>set\<close> throws when the key limit is reached; a ttl of \<open>0\<close> stores without expiry.\<close>

definition nc_set :: "int \<Rightarrow> nodeCache \<Rightarrow> string \<Rightarrow> cacheEntry \<Rightarrow> int \<Rightarrow> err + nodeCache" where
  "nc_set now c k e ttl =
     (if maxKeys c > -1 \<and> int (length (entries c)) \<ge> maxKeys c
      then Inl ''Cache max keys amount exceeded''
      else Inr (c\<lparr>entries :=
             AList.update k \<lparr>stored = e, livetime = (if ttl = 0 then 0 else now + ttl * 1000)\<rparr>
               (entries c)\<rparr>))"

section \<open>L2: the optional Redis client\<close>

text \<open>
  The client is \<open>None\<close> when Redis is not configured. While \<open>rdown\<close> holds every
  command rejects. A stored string is represented by the entry it serialises, with the
  instant at which \<open>SETEX\<close> lets it expire.
\<close>

record redis =
  rstore :: "string \<Rightarrow> (cacheEntry \<times> int) option"
  rdown :: bool

definition redis_get :: "int \<Rightarrow> redis \<Rightarrow> string \<Rightarrow> err + cacheEntry option" where
  "redis_get now r k =
     (if rdown r then Inl ''Connection is closed.''
      else case rstore r k of
             None \<Rightarrow> Inr None
           | Some (e, expiry) \<Rightarrow> if now < expiry then Inr (Some e) else Inr None)"

definition redis_setex :: "int \<Rightarrow> redis \<Rightarrow> string \<Rightarrow> int \<Rightarrow> cacheEntry \<Rightarrow> err + redis" where
  "redis_setex now r k ttl e =
     (if rdown r then Inl ''Connection is closed.''
      else Inr (r\<lparr>rstore := (rstore r)(k \<mapsto> (e, now + ttl * 1000))\<rparr>))"

section \<open>AdvancedCache\<close>

text \<open>
  The state of the module: the two tiers, the counters of the singleton, the background
  refreshes scheduled with \<open>setTimeout\<close> and not yet run, and the number of
  caller-supplied functions invoked so far. The running average \<open>avgResponseTime\<close> is a
  floating-point metric and is left out.
\<close>

record advancedCache =
  memoryCache :: nodeCache
  redisClient :: "redis option"
  hitCount :: nat
  missCount :: nat
  metrics_hits :: nat
  metrics_misses :: nat
  metrics_errors :: nat
  scheduled :: "(string \<times> fetchFunction \<times> int) list"
  invocations :: nat

record swrOptions =
  opt_ttl :: "int option"
  opt_staleTime :: "int option"
  opt_priority :: "string option"

text \<open>The destructuring defaults of \<open>getWithSWR\<close>'s \<open>options\<close> argument.\<close>

definition the_ttl :: "swrOptions \<Rightarrow> int" where
  "the_ttl options = (case opt_ttl options of None \<Rightarrow> 300 | Some x \<Rightarrow> x)"

definition the_staleTime :: "swrOptions \<Rightarrow> int" where
  "the_staleTime options = (case opt_staleTime options of None \<Rightarrow> 60 | Some x \<Rightarrow> x)"

definition the_priority :: "swrOptions \<Rightarrow> string" where
  "the_priority options = (case opt_priority options of None \<Rightarrow> ''normal'' | Some x \<Rightarrow> x)"

text \<open>\<open>refreshCache(key, fetchFunction, ttl)\<close>; every error is logged and rethrown.\<close>

definition refreshCache ::
  "int \<Rightarrow> advancedCache \<Rightarrow> string \<Rightarrow> fetchFunction \<Rightarrow> int \<Rightarrow> (err + jsval) \<times> advancedCache" where
  "refreshCache now s key fetchFunction ttl =
     (let s1 = s\<lparr>invocations := invocations s + 1\<rparr> in
      case fetchFunction (invocations s) of
        Inl e \<Rightarrow> (Inl e, s1)
      | Inr freshData \<Rightarrow>
          if str_includes key ''articles'' \<and> isEmptyArray freshData then (Inr freshData, s1)
          else
            let cacheEntry = \<lparr>data = freshData, timestamp = now\<rparr> in
            case nc_set now (memoryCache s1) key cacheEntry ttl of
              Inl e \<Rightarrow> (Inl e, s1)
            | Inr m \<Rightarrow>
                let s2 = s1\<lparr>memoryCache := m\<rparr> in
                (Inr freshData,
                 case redisClient s2 of
                   None \<Rightarrow> s2
                 | Some r \<Rightarrow>
                     (case redis_setex now r key ttl cacheEntry of
                        Inl redisError \<Rightarrow> s2
                      | Inr r' \<Rightarrow> s2\<lparr>redisClient := Some r'\<rparr>)))"

text \<open>\<open>backgroundRefresh\<close> only arms a timer; the callback runs later.\<close>

definition backgroundRefresh ::
  "advancedCache \<Rightarrow> string \<Rightarrow> fetchFunction \<Rightarrow> int \<Rightarrow> advancedCache" where
  "backgroundRefresh s key fetchFunction ttl =
     s\<lparr>scheduled := scheduled s @ [(key, fetchFunction, ttl)]\<rparr>"

text \<open>
  The timer callback of \<open>backgroundRefresh\<close>, run at instant \<open>now\<close> for the oldest
  scheduled refresh: it awaits \<open>refreshCache\<close> and catches whatever it throws.
\<close>

definition runScheduled :: "int \<Rightarrow> advancedCache \<Rightarrow> advancedCache" where
  "runScheduled now s =
     (case scheduled s of
        [] \<Rightarrow> s
      | (key, fetchFunction, ttl) # rest \<Rightarrow>
          snd (refreshCache now (s\<lparr>scheduled := rest\<rparr>) key fetchFunction ttl))"

text \<open>
  \<open>getWithSWR(key, fetchFunction, options)\<close>, called at instant \<open>now\<close>. The result is
  \<open>Inr\<close> the resolved value or \<open>Inl\<close> the message of the rejection.
\<close>

definition getWithSWR ::
  "int \<Rightarrow> advancedCache \<Rightarrow> string \<Rightarrow> fetchFunction \<Rightarrow> swrOptions \<Rightarrow> (err + jsval) \<times> advancedCache" where
  "getWithSWR now s key fetchFunction options =
     (let ttl = the_ttl options;
          staleTime = the_staleTime options;
          priority = the_priority options
      in
      case nc_get now (memoryCache s) key of
        (Some memoryData, m) \<Rightarrow>
          let s1 = s\<lparr>memoryCache := m, hitCount := hitCount s + 1, metrics_hits := metrics_hits s + 1\<rparr>;
              age = now - timestamp memoryData;
              isStale = (age > (ttl - staleTime) * 1000)
          in (Inr (data memoryData),
              if isStale \<and> priority \<noteq> ''low'' then backgroundRefresh s1 key fetchFunction ttl else s1)
      | (None, m) \<Rightarrow>
          let s0 = s\<lparr>memoryCache := m\<rparr>;
              miss = (\<lambda>sm.
                let sm1 = sm\<lparr>missCount := missCount sm + 1, metrics_misses := metrics_misses sm + 1\<rparr> in
                case refreshCache now sm1 key fetchFunction ttl of
                  (Inr freshData, sm2) \<Rightarrow> (Inr freshData, sm2)
                | (Inl error, sm2) \<Rightarrow>
                    (fetchFunction (invocations sm2),
                     sm2\<lparr>metrics_errors := metrics_errors sm2 + 1, invocations := invocations sm2 + 1\<rparr>))
          in
          case redisClient s0 of
            None \<Rightarrow> miss s0
          | Some r \<Rightarrow>
              (case redis_get now r key of
                 Inl redisError \<Rightarrow> miss (s0\<lparr>metrics_errors := metrics_errors s0 + 1\<rparr>)
               | Inr None \<Rightarrow> miss s0
               | Inr (Some parsedData) \<Rightarrow>
                   (case nc_set now (memoryCache s0) key
                           \<lparr>data = data parsedData, timestamp = timestamp parsedData\<rparr> ttl of
                      Inl redisError \<Rightarrow> miss (s0\<lparr>metrics_errors := metrics_errors s0 + 1\<rparr>)
                    | Inr m' \<Rightarrow>
                        (Inr (data parsedData),
                         s0\<lparr>memoryCache := m', hitCount := hitCount s0 + 1,
                            metrics_hits := metrics_hits s0 + 1\<rparr>))))"

text \<open>
  \<open>advancedCache.cleanup()\<close>: above 400 keys, delete the first
  \<open>Math.floor(keyCount * 0.2)\<close> keys of the listing. For every key count the cache
  can hold the floating-point product floors to \<open>keyCount div 5\<close>.
\<close>

definition cleanup :: "advancedCache \<Rightarrow> advancedCache" where
  "cleanup s =
     (let keyCount = length (nc_keys (memoryCache s)) in
      if keyCount > 400 then
        let keys = nc_keys (memoryCache s);
            keysToDelete = take (keyCount div 5) keys
        in s\<lparr>memoryCache := foldl nc_del (memoryCache s) keysToDelete\<rparr>
      else s)"

section \<open>Notions used to state the properties of the cache\<close>

text \<open>The module as loaded, with the Redis client it was given (if any).\<close>

definition initialCache :: "redis option \<Rightarrow> advancedCache" where
  "initialCache rc =
     \<lparr>memoryCache = \<lparr>entries = [], maxKeys = 500\<rparr>, redisClient = rc,
      hitCount = 0, missCount = 0, metrics_hits = 0, metrics_misses = 0, metrics_errors = 0,
      scheduled = [], invocations = 0\<rparr>"

text \<open>\<open>memoryCache.get(key)\<close> yields the entry \<open>e\<close> at instant \<open>now\<close>.\<close>

definition local_hit :: "int \<Rightarrow> advancedCache \<Rightarrow> string \<Rightarrow> cacheEntry \<Rightarrow> bool" where
  "local_hit now s key e \<longleftrightarrow> fst (nc_get now (memoryCache s) key) = Some e"

text \<open>
  Neither tier yields a value for the key at instant \<open>now\<close>: the memory cache has no
  live entry, and Redis is not configured, rejects, or has no live entry.
\<close>

definition full_miss :: "int \<Rightarrow> advancedCache \<Rightarrow> string \<Rightarrow> bool" where
  "full_miss now s key \<longleftrightarrow>
     fst (nc_get now (memoryCache s) key) = None \<and>
     (case redisClient s of
        None \<Rightarrow> True
      | Some r \<Rightarrow> (case redis_get now r key of Inr (Some e) \<Rightarrow> False | _ \<Rightarrow> True))"

text \<open>The keys of the memory cache are distinct and their number respects \<open>maxKeys\<close>.\<close>

definition within_limit :: "nodeCache \<Rightarrow> bool" where
  "within_limit c \<longleftrightarrow>
     distinct (nc_keys c) \<and> (maxKeys c > -1 \<longrightarrow> int (length (entries c)) \<le> maxKeys c)"

text \<open>One \<open>getWithSWR\<close> call per key, in order, all at the same instant.\<close>

definition getAll ::
  "int \<Rightarrow> advancedCache \<Rightarrow> string list \<Rightarrow> fetchFunction \<Rightarrow> swrOptions \<Rightarrow> advancedCache" where
  "getAll now s keys f options = foldl (\<lambda>s' k. snd (getWithSWR now s' k f options)) s keys"

subsection \<open>Example inputs\<close>

definition defaults :: swrOptions where
  "defaults = \<lparr>opt_ttl = None, opt_staleTime = None, opt_priority = None\<rparr>"

definition constantly :: "jsval \<Rightarrow> fetchFunction" where
  "constantly x n = Inr x"

definition flaky :: fetchFunction where
  "flaky n = (if n = 0 then Inl ''upstream unavailable'' else Inr (JArr [JStr ''story'']))"

definition failing :: fetchFunction where
  "failing n = Inl ''upstream unavailable''"

definition warmCache :: advancedCache where
  "warmCache = snd (getWithSWR 1000 (initialCache None) ''search:x:10'' (constantly (JNum 7)) defaults)"

text \<open>
  A process restarted at some instant after \<open>warmCache\<close> was built with Redis attached:
  the memory cache is empty again, Redis still holds what was computed at instant 1000.
  \<open>promotedCache\<close> is the state after a \<open>getWithSWR\<close> at instant 250000 has copied the
  Redis entry into the memory cache.
\<close>

definition redisWarm :: advancedCache where
  "redisWarm =
     (snd (getWithSWR 1000 (initialCache (Some \<lparr>rstore = Map.empty, rdown = False\<rparr>))
             ''search:x:10'' (constantly (JNum 7)) defaults))
       \<lparr>memoryCache := \<lparr>entries = [], maxKeys = 500\<rparr>\<rparr>"

definition promotedCache :: advancedCache where
  "promotedCache = snd (getWithSWR 250000 redisWarm ''search:x:10'' failing defaults)"

definition smallCache :: "int \<Rightarrow> advancedCache" where
  "smallCache n = (initialCache None)\<lparr>memoryCache := \<lparr>entries = [], maxKeys = n\<rparr>\<rparr>"

definition sixKeys :: "string list" where
  "sixKeys = [''article:1'', ''article:2'', ''article:3'', ''article:4'', ''article:5'', ''article:6'']"

definition afterSixInserts :: advancedCache where
  "afterSixInserts = getAll 0 (smallCache 5) sixKeys (constantly (JNum 1)) defaults"

definition numbered :: "nat \<Rightarrow> string" where
  "numbered i = replicate (Suc i) (CHR ''k'')"

definition filledCache :: "nat \<Rightarrow> advancedCache" where
  "filledCache n = (initialCache None)\<lparr>memoryCache :=
      \<lparr>entries = map (\<lambda>i. (numbered i, \<lparr>stored = \<lparr>data = JNull, timestamp = 0\<rparr>, livetime = 0\<rparr>)) [0..<n],
       maxKeys = 500\<rparr>\<rparr>"

section \<open>CommentaryWorker\<close>

record job =
  articleId :: string
  title :: string
  content :: string
  category :: string
  priority :: int
  addedAt :: int

record commentaryWorker =
  isRunning :: bool
  queue :: "job list"
  processedToday :: nat
  maxDailyCommentaries :: nat

definition newCommentaryWorker :: commentaryWorker where
  "newCommentaryWorker =
     \<lparr>isRunning = False, queue = [], processedToday = 0, maxDailyCommentaries = 100\<rparr>"

text \<open>
  \<open>this.queue.sort((a, b) => b.priority - a.priority)\<close>: a stable sort, highest
  priority first.
\<close>

definition sortByPriority :: "job list \<Rightarrow> job list" where
  "sortByPriority q = sort_key (\<lambda>j. - priority j) q"

text \<open>
  \<open>CommentaryWorker.processQueue\<close>. The two awaited collaborators are parameters:
  \<open>generateCommentary\<close> yields the commentary (\<open>None\<close> for \<open>null\<close>) or throws, and
  \<open>saveCommentary\<close> succeeds or throws.
\<close>

definition worker_processQueue ::
  "(job \<Rightarrow> err + string option) \<Rightarrow> (string \<Rightarrow> string \<Rightarrow> err + unit) \<Rightarrow> commentaryWorker
     \<Rightarrow> commentaryWorker" where
  "worker_processQueue generateCommentary saveCommentary w =
     (case queue w of
        [] \<Rightarrow> w
      | item # rest \<Rightarrow>
          if processedToday w \<ge> maxDailyCommentaries w then w
          else
            let w1 = w\<lparr>queue := rest\<rparr>;
                caught = (\<lambda>message.
                  if str_includes message ''Rate limit'' \<or> str_includes message ''timeout''
                  then w1\<lparr>queue :=
                         sortByPriority (queue w1 @ [item\<lparr>priority := max 1 (priority item - 1)\<rparr>])\<rparr>
                  else w1)
            in case generateCommentary item of
                 Inl message \<Rightarrow> caught message
               | Inr None \<Rightarrow> w1
               | Inr (Some commentary) \<Rightarrow>
                   if commentary = [] then w1
                   else (case saveCommentary (articleId item) commentary of
                           Inl message \<Rightarrow> caught message
                         | Inr u \<Rightarrow> w1\<lparr>processedToday := processedToday w1 + 1\<rparr>))"

text \<open>The test of the \<open>catch\<close> block: the message is taken for a temporary error.\<close>

definition transient :: "err \<Rightarrow> bool" where
  "transient message \<longleftrightarrow> str_includes message ''Rate limit'' \<or> str_includes message ''timeout''"

text \<open>
  The messages that speak of a rate limit or of a timeout in any of the usual wordings,
  among them the rate limiter's own \<open>Request <id> timed out in queue\<close>. Every message
  the test above accepts is one of them; not every one of them passes the test.
\<close>

definition rateLimitOrTimeout :: "err \<Rightarrow> bool" where
  "rateLimitOrTimeout message \<longleftrightarrow>
     list_ex (str_includes message)
       [''Rate limit'', ''rate limit'', ''RATE LIMIT'', ''rate_limit'', ''429'',
        ''timeout'', ''Timeout'', ''TIMEOUT'', ''timed out'', ''Timed out'', ''TIMEDOUT'']"

definition failsWith :: "(job \<Rightarrow> err + string option) \<Rightarrow> (string \<Rightarrow> string \<Rightarrow> err + unit) \<Rightarrow> job \<Rightarrow> err \<Rightarrow> bool" where
  "failsWith gen save j message \<longleftrightarrow>
     (case gen j of
        Inl m \<Rightarrow> m = message
      | Inr None \<Rightarrow> False
      | Inr (Some c) \<Rightarrow> c \<noteq> [] \<and> save (articleId j) c = Inl message)"

definition sortedDescending :: "job list \<Rightarrow> bool" where
  "sortedDescending q \<longleftrightarrow> sorted_wrt (\<lambda>a b. priority a \<ge> priority b) q"

subsection \<open>Example inputs\<close>

definition workerWith :: "job list \<Rightarrow> commentaryWorker" where
  "workerWith q = newCommentaryWorker\<lparr>queue := q\<rparr>"

definition urgentJob :: job where
  "urgentJob = \<lparr>articleId = ''a1'', title = ''Budget vote'', content = ''text'',
                category = ''politics'', priority = 9, addedAt = 0\<rparr>"

definition lowJob :: job where
  "lowJob = \<lparr>articleId = ''a2'', title = ''Weather'', content = ''text'',
             category = ''local'', priority = 1, addedAt = 0\<rparr>"

definition rateLimited :: "job \<Rightarrow> err + string option" where
  "rateLimited j = Inl ''Rate limit exceeded''"

definition timedOutInQueue :: "job \<Rightarrow> err + string option" where
  "timedOutInQueue j = Inl ''Request req_1 timed out in queue''"

definition notFound :: "job \<Rightarrow> err + string option" where
  "notFound j = Inl ''Article not found''"

definition saveOk :: "string \<Rightarrow> string \<Rightarrow> err + unit" where
  "saveOk a c = Inr ()"

section \<open>GroqRateLimiter\<close>

text \<open>
  Token counts are JavaScript numbers holding integers. A sum or difference of two of
  them is the exact integer rounded to the nearest double, ties to even; below
  \<open>2^53\<close> in magnitude nothing is rounded. (The overflow to infinity beyond
  \<open>2^1024\<close> is not modelled.)
\<close>

fun bitLength :: "nat \<Rightarrow> nat" where
  "bitLength n = (if n = 0 then 0 else Suc (bitLength (n div 2)))"

declare bitLength.simps [simp del]

definition roundDouble :: "int \<Rightarrow> int" where
  "roundDouble n =
     (if \<bar>n\<bar> < 2 ^ 53 then n
      else
        let m = nat \<bar>n\<bar>;
            q = 2 ^ (bitLength m - 53);
            lower = m div q;
            rest = m mod q;
            up = (rest * 2 > q \<or> (rest * 2 = q \<and> odd lower));
            rounded = (if up then lower + 1 else lower) * q
        in if n < 0 then - int rounded else int rounded)"

text \<open>
  The object \<open>executeImmediate\<close> resolves with. A promise is named by the handle
  allocated for it; \<open>settled\<close> records the first settlement of each promise, as later
  calls of \<open>resolve\<close> or \<open>reject\<close> have no effect.
\<close>

record response =
  res_success :: bool
  res_data :: jsval
  res_requestId :: string
  res_tokensUsed :: int
  res_waitTime :: int

record queueEntry =
  requestFunction :: fetchFunction
  estimatedTokens :: int
  priority :: string
  requestId :: string
  startTime :: int
  promise :: nat
  timeout :: nat

text \<open>
  \<open>executeImmediate\<close> is suspended at \<open>await requestFunction()\<close> until the request
  function settles; meanwhile anything else may run. A suspended call is recorded with
  what its request function will settle with, the arguments the rest of the call uses,
  and who awaits it: the caller of \<open>executeRequest\<close>, holding the promise returned to
  it, or the loop of \<open>processQueue\<close>, which then settles the promise of the queue entry
  and goes on.
\<close>

datatype awaiter = Caller nat | Loop nat

fun awaited :: "awaiter \<Rightarrow> nat" where
  "awaited (Caller p) = p"
| "awaited (Loop p) = p"

record suspended =
  outcome :: "err + jsval"
  sus_tokens :: int
  sus_requestId :: string
  sus_startTime :: int
  sus_awaiter :: awaiter

text \<open>
  The limiter: its fields, the armed queue timers (handle to the request id and promise
  captured by the callback, and the instant the timer is due), the settled promises, the
  suspended \<open>executeImmediate\<close> calls, the console lines
  \<open>Executing immediate request <id>\<close> in order, and the number of request functions
  invoked so far. The floating-point average \<open>avgWaitTime\<close> is left out.
\<close>

record groqRateLimiter =
  tokensPerMinute :: int
  availableTokens :: int
  queue :: "queueEntry list"
  requestsCompleted :: nat
  requestsQueued :: nat
  tokensUsed :: int
  errors :: nat
  timers :: "nat \<Rightarrow> (string \<times> nat \<times> int) option"
  settled :: "nat \<Rightarrow> (err + response) option"
  nextHandle :: nat
  inflight :: "nat \<Rightarrow> suspended option"
  nextCall :: nat
  executing :: "string list"
  calls :: nat

record requestOptions =
  opt_estimatedTokens :: "int option"
  opt_reqPriority :: "string option"
  opt_timeout :: "int option"

text \<open>The constructor: \<open>options.tokensPerMinute || 5500\<close>.\<close>

definition newGroqRateLimiter :: "int option \<Rightarrow> groqRateLimiter" where
  "newGroqRateLimiter tpm =
     (let n = (case tpm of None \<Rightarrow> 5500 | Some x \<Rightarrow> if x = 0 then 5500 else x) in
      \<lparr>tokensPerMinute = n, availableTokens = n, queue = [],
       requestsCompleted = 0, requestsQueued = 0, tokensUsed = 0, errors = 0,
       timers = Map.empty, settled = Map.empty, nextHandle = 0,
       inflight = Map.empty, nextCall = 0, executing = [], calls = 0\<rparr>)"

text \<open>\<open>resolve\<close> or \<open>reject\<close> of the promise \<open>p\<close>, and \<open>clearTimeout\<close> of the timer \<open>h\<close>.\<close>

definition settle :: "nat \<Rightarrow> err + response \<Rightarrow> groqRateLimiter \<Rightarrow> groqRateLimiter" where
  "settle p r s = (if settled s p = None then s\<lparr>settled := (settled s)(p \<mapsto> r)\<rparr> else s)"

definition clearTimeout :: "nat \<Rightarrow> groqRateLimiter \<Rightarrow> groqRateLimiter" where
  "clearTimeout h s = s\<lparr>timers := (timers s)(h := None)\<rparr>"

text \<open>
  \<open>executeImmediate\<close> up to its \<open>await\<close>: the debit, the console line, and the call
  of the request function, which leaves the call suspended.
\<close>

definition executeImmediate ::
  "groqRateLimiter \<Rightarrow> fetchFunction \<Rightarrow> int \<Rightarrow> string \<Rightarrow> int \<Rightarrow> awaiter \<Rightarrow> groqRateLimiter" where
  "executeImmediate s fn tokens rid start aw =
     s\<lparr>availableTokens := roundDouble (availableTokens s - tokens),
       tokensUsed := roundDouble (tokensUsed s + tokens),
       executing := executing s @ [rid],
       calls := calls s + 1,
       inflight := (inflight s)(nextCall s \<mapsto>
          \<lparr>outcome = fn (calls s), sus_tokens = tokens, sus_requestId = rid,
           sus_startTime = start, sus_awaiter = aw\<rparr>),
       nextCall := nextCall s + 1\<rparr>"

text \<open>
  \<open>executeImmediate\<close> after its \<open>await\<close>, at instant \<open>now\<close>: the result object on
  success; on failure the refund, and the error is thrown again.
\<close>

definition executeImmediate_resumed ::
  "int \<Rightarrow> groqRateLimiter \<Rightarrow> suspended \<Rightarrow> (err + response) \<times> groqRateLimiter" where
  "executeImmediate_resumed now s c =
     (case outcome c of
        Inr result \<Rightarrow>
          (Inr \<lparr>res_success = True, res_data = result, res_requestId = sus_requestId c,
                res_tokensUsed = sus_tokens c, res_waitTime = now - sus_startTime c\<rparr>,
           s\<lparr>requestsCompleted := requestsCompleted s + 1\<rparr>)
      | Inl error \<Rightarrow>
          (Inl error,
           s\<lparr>errors := errors s + 1,
             availableTokens := roundDouble (availableTokens s + sus_tokens c),
             tokensUsed := roundDouble (tokensUsed s - sus_tokens c)\<rparr>))"

definition queueRequest ::
  "int \<Rightarrow> groqRateLimiter \<Rightarrow> fetchFunction \<Rightarrow> int \<Rightarrow> string \<Rightarrow> int \<Rightarrow> string \<Rightarrow> int
     \<Rightarrow> nat \<times> groqRateLimiter" where
  "queueRequest now s fn tokens prio ms rid start =
     (let h = nextHandle s;
          queueEntry = \<lparr>requestFunction = fn, estimatedTokens = tokens,
                        priority = prio, requestId = rid, startTime = start,
                        promise = h, timeout = h\<rparr>
      in (h,
          s\<lparr>nextHandle := h + 1,
            timers := (timers s)(h \<mapsto> (rid, h, now + ms)),
            queue := (if prio = ''high'' then queueEntry # queue s else queue s @ [queueEntry]),
            requestsQueued := requestsQueued s + 1\<rparr>))"

text \<open>
  \<open>executeRequest\<close> with the destructuring defaults of its \<open>options\<close>; \<open>rid\<close> stands
  for the \<open>requestId\<close> built from \<open>Date.now()\<close> and \<open>Math.random()\<close>, and \<open>now\<close>
  is the \<open>startTime\<close>. The result is the promise returned to the caller.
\<close>

definition the_estimatedTokens :: "requestOptions \<Rightarrow> int" where
  "the_estimatedTokens options = (case opt_estimatedTokens options of None \<Rightarrow> 200 | Some x \<Rightarrow> x)"

definition the_reqPriority :: "requestOptions \<Rightarrow> string" where
  "the_reqPriority options = (case opt_reqPriority options of None \<Rightarrow> ''normal'' | Some x \<Rightarrow> x)"

definition the_timeout :: "requestOptions \<Rightarrow> int" where
  "the_timeout options = (case opt_timeout options of None \<Rightarrow> 30000 | Some x \<Rightarrow> x)"

definition executeRequest ::
  "int \<Rightarrow> groqRateLimiter \<Rightarrow> fetchFunction \<Rightarrow> requestOptions \<Rightarrow> string \<Rightarrow> nat \<times> groqRateLimiter" where
  "executeRequest now s fn options rid =
     (let tokens = the_estimatedTokens options;
          prio = the_reqPriority options;
          ms = the_timeout options
      in if availableTokens s \<ge> tokens
         then (let p = nextHandle s in
               (p, executeImmediate (s\<lparr>nextHandle := p + 1\<rparr>) fn tokens rid now (Caller p)))
         else queueRequest now s fn tokens prio ms rid now)"

text \<open>
  The \<open>while\<close> loop of \<open>processQueue\<close>, from the test of its condition to the point
  where it ends or is suspended at \<open>await this.executeImmediate(...)\<close>.
\<close>

definition processLoop :: "groqRateLimiter \<Rightarrow> groqRateLimiter" where
  "processLoop s =
     (case queue s of
        [] \<Rightarrow> s
      | queueEntry # rest \<Rightarrow>
          if availableTokens s > 0 then
            if availableTokens s \<ge> estimatedTokens queueEntry then
              executeImmediate (clearTimeout (timeout queueEntry) (s\<lparr>queue := rest\<rparr>))
                (requestFunction queueEntry) (estimatedTokens queueEntry)
                (requestId queueEntry) (startTime queueEntry) (Loop (promise queueEntry))
            else s
          else s)"

definition processQueue :: "groqRateLimiter \<Rightarrow> groqRateLimiter" where
  "processQueue s = (if queue s = [] then s else processLoop s)"

text \<open>
  The request function of the suspended call \<open>k\<close> settles at instant \<open>now\<close>:
  \<open>executeImmediate\<close> runs to its end; then either the caller's promise is settled
  with its result, or the loop of \<open>processQueue\<close> resolves or rejects the promise of the
  queue entry and goes round again.
\<close>

definition resume :: "int \<Rightarrow> groqRateLimiter \<Rightarrow> nat \<Rightarrow> groqRateLimiter" where
  "resume now s k =
     (case inflight s k of
        None \<Rightarrow> s
      | Some c \<Rightarrow>
          (case executeImmediate_resumed now (s\<lparr>inflight := (inflight s)(k := None)\<rparr>) c of
             (r, s') \<Rightarrow>
               (case sus_awaiter c of
                  Caller p \<Rightarrow> settle p r s'
                | Loop p \<Rightarrow> processLoop (settle p r s'))))"

text \<open>\<open>Array.prototype.findIndex\<close>\<close>

fun findIndex :: "('a \<Rightarrow> bool) \<Rightarrow> 'a list \<Rightarrow> int" where
  "findIndex P [] = -1"
| "findIndex P (x # xs) =
     (if P x then 0 else let i = findIndex P xs in if i = -1 then -1 else i + 1)"

definition removeFromQueue :: "groqRateLimiter \<Rightarrow> string \<Rightarrow> groqRateLimiter" where
  "removeFromQueue s rid =
     (let index = findIndex (\<lambda>entry. requestId entry = rid) (queue s) in
      if index \<noteq> -1 then
        let removed = queue s ! nat index in
        clearTimeout (timeout removed)
          (s\<lparr>queue := take (nat index) (queue s) @ drop (nat index + 1) (queue s)\<rparr>)
      else s)"

text \<open>
  The callback of the timer armed by \<open>queueRequest\<close>, for timer \<open>h\<close> at instant \<open>now\<close>.
  A cleared timer, or one not yet due, does nothing.
\<close>

definition fireTimer :: "int \<Rightarrow> groqRateLimiter \<Rightarrow> nat \<Rightarrow> groqRateLimiter" where
  "fireTimer now s h =
     (case timers s h of
        None \<Rightarrow> s
      | Some (rid, p, due) \<Rightarrow>
          if now < due then s
          else settle p (Inl (''Request '' @ rid @ '' timed out in queue''))
                 (removeFromQueue (s\<lparr>timers := (timers s)(h := None)\<rparr>) rid))"

text \<open>The one-minute interval: refill, then drain.\<close>

definition refill :: "groqRateLimiter \<Rightarrow> groqRateLimiter" where
  "refill s = processQueue (s\<lparr>availableTokens := tokensPerMinute s\<rparr>)"

text \<open>
  What can happen to the limiter, each a turn of the event loop, and runs of such events
  at given instants: a call of \<open>executeRequest\<close>, a tick of the five-second interval, a
  tick of the one-minute interval, a queue timer, and the settling of the request
  function of a suspended call.
\<close>

datatype event =
    ExecuteRequest fetchFunction requestOptions string
  | ProcessQueue
  | Refill
  | FireTimer nat
  | Settles nat

fun step :: "groqRateLimiter \<Rightarrow> int \<times> event \<Rightarrow> groqRateLimiter" where
  "step s (now, ExecuteRequest f options rid) = snd (executeRequest now s f options rid)"
| "step s (now, ProcessQueue) = processQueue s"
| "step s (now, Refill) = refill s"
| "step s (now, FireTimer h) = fireTimer now s h"
| "step s (now, Settles k) = resume now s k"

definition run :: "groqRateLimiter \<Rightarrow> (int \<times> event) list \<Rightarrow> groqRateLimiter" where
  "run s evs = foldl step s evs"

section \<open>Notions used to state the properties of the rate limiter\<close>

text \<open>The request ids drawn by the \<open>executeRequest\<close> calls of a run.\<close>

fun submittedIds :: "(int \<times> event) list \<Rightarrow> string list" where
  "submittedIds [] = []"
| "submittedIds ((now, ExecuteRequest f options rid) # evs) = rid # submittedIds evs"
| "submittedIds (ev # evs) = submittedIds evs"

text \<open>
  The order in which queued entries are served. Promise handles are allocated in
  increasing order, so a smaller handle means an earlier \<open>queueRequest\<close>. A
  high-priority entry comes before every other entry; of two high-priority entries the
  one queued later comes first; of two other entries the one queued earlier comes first.
\<close>

definition isHigh :: "queueEntry \<Rightarrow> bool" where
  "isHigh e \<longleftrightarrow> priority e = ''high''"

definition servedBefore :: "queueEntry \<Rightarrow> queueEntry \<Rightarrow> bool" where
  "servedBefore a b \<longleftrightarrow>
     (if isHigh a then (if isHigh b then promise b < promise a else True)
      else (if isHigh b then False else promise a < promise b))"

text \<open>The queue is in serving order and its handles have all been allocated.\<close>

definition ordered :: "groqRateLimiter \<Rightarrow> bool" where
  "ordered s \<longleftrightarrow>
     sorted_wrt servedBefore (queue s) \<and> (\<forall>e \<in> set (queue s). promise e < nextHandle s)"

text \<open>
  The request \<open>rid\<close> is not queued and the promise \<open>p\<close> has been settled with \<open>x\<close>.
\<close>

definition gone :: "string \<Rightarrow> nat \<Rightarrow> err + response \<Rightarrow> groqRateLimiter \<Rightarrow> bool" where
  "gone rid p x s \<longleftrightarrow> rid \<notin> requestId ` set (queue s) \<and> settled s p = Some x"

text \<open>
  The bookkeeping of queued requests, for the request ids \<open>ids\<close> drawn so far: queued
  entries have distinct ids among \<open>ids\<close> and distinct promises; each has an allocated
  handle, a pending promise and its own armed timer; every armed timer belongs to a queued
  entry; only allocated promises are settled; the promise a suspended call will settle is
  allocated and is not that of a queued entry.
\<close>

definition wellformed :: "string set \<Rightarrow> groqRateLimiter \<Rightarrow> bool" where
  "wellformed ids s \<longleftrightarrow>
     distinct (map requestId (queue s)) \<and>
     distinct (map promise (queue s)) \<and>
     requestId ` set (queue s) \<subseteq> ids \<and>
     (\<forall>e \<in> set (queue s).
        promise e < nextHandle s \<and> timeout e = promise e \<and> settled s (promise e) = None \<and>
        (\<exists>due. timers s (promise e) = Some (requestId e, promise e, due))) \<and>
     (\<forall>h rid p due. timers s h = Some (rid, p, due) \<longrightarrow>
        p = h \<and> (\<exists>e \<in> set (queue s). promise e = h \<and> requestId e = rid)) \<and>
     (\<forall>p x. settled s p = Some x \<longrightarrow> p < nextHandle s) \<and>
     (\<forall>k c. inflight s k = Some c \<longrightarrow>
        awaited (sus_awaiter c) < nextHandle s \<and>
        awaited (sus_awaiter c) \<notin> promise ` set (queue s))"

subsection \<open>Example inputs\<close>

definition request :: "int \<Rightarrow> string \<Rightarrow> int \<Rightarrow> requestOptions" where
  "request tokens prio ms =
     \<lparr>opt_estimatedTokens = Some tokens, opt_reqPriority = Some prio, opt_timeout = Some ms\<rparr>"

definition succeed :: fetchFunction where
  "succeed n = Inr (JStr ''completion'')"

definition reject :: fetchFunction where
  "reject n = Inl ''503 Service Unavailable''"

definition limiter100 :: groqRateLimiter where
  "limiter100 = newGroqRateLimiter (Some 100)"

text \<open>
  A request of 80 tokens is admitted a tenth of a second before the one-minute refill
  fires; its request function is still running then, and fails afterwards. Two further
  requests of 100 and of 80 tokens then follow in the same window.
\<close>

definition failsAfterRefill :: "(int \<times> event) list" where
  "failsAfterRefill =
     [(59900, ExecuteRequest reject (request 80 ''normal'' 30000) ''r0''),
      (60000, Refill),
      (60400, Settles 0)]"

definition twoMore :: "(int \<times> event) list" where
  "twoMore =
     [(61000, ExecuteRequest succeed (request 100 ''normal'' 30000) ''r1''),
      (62000, ExecuteRequest succeed (request 80 ''normal'' 30000) ''r2'')]"

definition twoHighQueued :: "(int \<times> event) list" where
  "twoHighQueued =
     [(0, ExecuteRequest succeed (request 100 ''normal'' 120000) ''r0''),
      (1, ExecuteRequest succeed (request 10 ''high'' 120000) ''first''),
      (2, ExecuteRequest succeed (request 10 ''high'' 120000) ''second'')]"

definition mixedQueued :: "(int \<times> event) list" where
  "mixedQueued =
     [(3, ExecuteRequest succeed (request 10 ''normal'' 120000) ''third''),
      (4, ExecuteRequest succeed (request 10 ''low'' 120000) ''fourth'')]"

text \<open>The refill, and the request functions settling one after the other.\<close>

definition refillAndSettle :: "(int \<times> event) list" where
  "refillAndSettle =
     [(60000, Refill), (60100, Settles 1), (60200, Settles 2), (60300, Settles 3)]"

definition oneQueued :: "(int \<times> event) list" where
  "oneQueued =
     [(0, ExecuteRequest succeed (request 80 ''normal'' 30000) ''r0''),
      (1, ExecuteRequest succeed (request 30 ''normal'' 100) ''r1'')]"

definition queuedR1 :: queueEntry where
  "queuedR1 = \<lparr>requestFunction = succeed, estimatedTokens = 30, priority = ''normal'',
               requestId = ''r1'', startTime = 1, promise = 1, timeout = 1\<rparr>"

section \<open>Properties of the cache\<close>

lemmas cache_defs = getWithSWR_def refreshCache_def nc_get_def nc_set_def nc_del_def nc_keys_def
  redis_get_def redis_setex_def the_ttl_def the_staleTime_def the_priority_def
  backgroundRefresh_def Let_def

lemmas example_defs = initialCache_def defaults_def constantly_def flaky_def failing_def
  warmCache_def redisWarm_def promotedCache_def smallCache_def sixKeys_def afterSixInserts_def
  getAll_def

subsection \<open>Hits in the memory cache\<close>

text \<open>
  C1 as stated fails. An entry copied from Redis into the memory cache keeps the
  timestamp of the original computation. Here the memory cache is empty until a call at
  instant 250000 copies the Redis entry, computed at instant 1000, into it; a call one
  second later, far less than \<open>ttl - staleTime\<close> seconds after the entry was stored in
  the memory cache, schedules a background refresh.
\<close>

theorem fresh_hit_counterexample:
  "entries (memoryCache redisWarm) = [] \<and>
   entries (memoryCache promotedCache) =
     [(''search:x:10'', \<lparr>stored = \<lparr>data = JNum 7, timestamp = 1000\<rparr>, livetime = 550000\<rparr>)] \<and>
   (251000 :: int) - 250000 < (the_ttl defaults - the_staleTime defaults) * 1000 \<and>
   fst (getWithSWR 251000 promotedCache ''search:x:10'' failing defaults) = Inr (JNum 7) \<and>
   scheduled (snd (getWithSWR 251000 promotedCache ''search:x:10'' failing defaults))
     = [(''search:x:10'', failing, 300)]"
  by (simp add: example_defs cache_defs)

text \<open>
  C1, amended. When the memory cache holds an entry for the key whose \<open>timestamp\<close>,
  the instant at which \<open>refreshCache\<close> computed its value and which an entry copied from
  Redis keeps, is less than \<open>ttl - staleTime\<close> seconds old, \<open>getWithSWR\<close> resolves
  with exactly the stored data; the only change of state is the hit counters: no
  caller-supplied function is invoked and no background refresh is scheduled.
\<close>

theorem fresh_hit:
  assumes "local_hit now s key e"
    and "now - timestamp e < (the_ttl options - the_staleTime options) * 1000"
  shows "getWithSWR now s key f options =
           (Inr (data e), s\<lparr>hitCount := hitCount s + 1, metrics_hits := metrics_hits s + 1\<rparr>)"
  using assms
  by (auto simp: local_hit_def getWithSWR_def Let_def nc_get_def split: option.splits if_splits)

theorem fresh_hit_witness:
  "local_hit 2000 warmCache ''search:x:10'' \<lparr>data = JNum 7, timestamp = 1000\<rparr> \<and>
   2000 - timestamp \<lparr>data = JNum 7, timestamp = 1000\<rparr>
     < (the_ttl defaults - the_staleTime defaults) * 1000 \<and>
   getWithSWR 2000 warmCache ''search:x:10'' flaky defaults =
     (Inr (JNum 7), warmCache\<lparr>hitCount := 1, metrics_hits := 1\<rparr>)"
proof -
  have h1: "local_hit 2000 warmCache ''search:x:10'' \<lparr>data = JNum 7, timestamp = 1000\<rparr>"
    by (simp add: local_hit_def example_defs cache_defs)
  have h2: "2000 - timestamp \<lparr>data = JNum 7, timestamp = 1000\<rparr>
              < (the_ttl defaults - the_staleTime defaults) * 1000"
    by (simp add: defaults_def the_ttl_def the_staleTime_def)
  have "hitCount warmCache = 0" and "metrics_hits warmCache = 0"
    by (simp_all add: example_defs cache_defs)
  with fresh_hit [OF h1 h2, of flaky] h1 h2 show ?thesis
    by simp
qed





subsection \<open>Misses in both tiers\<close>

lemma full_miss_result:
  assumes "full_miss now s key"
  shows "\<exists>s0. getWithSWR now s key f options =
     (let sm1 = s0\<lparr>missCount := missCount s0 + 1, metrics_misses := metrics_misses s0 + 1\<rparr> in
      case refreshCache now sm1 key f (the_ttl options) of
        (Inr freshData, sm2) \<Rightarrow> (Inr freshData, sm2)
      | (Inl error, sm2) \<Rightarrow>
          (f (invocations sm2),
           sm2\<lparr>metrics_errors := metrics_errors sm2 + 1, invocations := invocations sm2 + 1\<rparr>))
     \<and> memoryCache s0 = snd (nc_get now (memoryCache s) key) \<and> redisClient s0 = redisClient s
     \<and> invocations s0 = invocations s \<and> scheduled s0 = scheduled s"
proof (cases "redisClient s")
  case None
  with assms show ?thesis
    by (cases "nc_get now (memoryCache s) key")
       (auto simp: full_miss_def getWithSWR_def Let_def
          intro!: exI[of _ "s\<lparr>memoryCache := snd (nc_get now (memoryCache s) key)\<rparr>"])
next
  case (Some r)
  show ?thesis
  proof (cases "redis_get now r key")
    case (Inl a)
    with Some assms show ?thesis
      by (cases "nc_get now (memoryCache s) key")
         (auto simp: full_miss_def getWithSWR_def Let_def
           intro!: exI[of _ "s\<lparr>memoryCache := snd (nc_get now (memoryCache s) key),
                               metrics_errors := metrics_errors s + 1\<rparr>"])
  next
    case (Inr b)
    with Some assms have "b = None" by (cases b) (auto simp: full_miss_def)
    with Inr Some assms show ?thesis
      by (cases "nc_get now (memoryCache s) key")
         (auto simp: full_miss_def getWithSWR_def Let_def
            intro!: exI[of _ "s\<lparr>memoryCache := snd (nc_get now (memoryCache s) key)\<rparr>"])
  qed
qed

lemma nc_get_None_absent:
  "map_of (entries (snd (nc_get now c k))) k = None \<or> fst (nc_get now c k) \<noteq> None"
  by (auto simp: nc_get_def nc_del_def AList.delete_conv split: option.splits)

lemma nc_get_subset:
  "set (entries (snd (nc_get now c k))) \<subseteq> set (entries c)"
  by (auto simp: nc_get_def nc_del_def AList.delete_eq split: option.splits)

lemma full_miss_later:
  assumes "full_miss now s key" and "now \<le> later"
    and "memoryCache s' = snd (nc_get now (memoryCache s) key)" and "redisClient s' = redisClient s"
  shows "full_miss later s' key"
proof -
  from assms(1) have "map_of (entries (memoryCache s')) key = None"
    using nc_get_None_absent [of now "memoryCache s" key] assms(3) by (simp add: full_miss_def)
  then have "fst (nc_get later (memoryCache s') key) = None"
    by (simp add: nc_get_def)
  moreover from assms(1,2,4) have
    "(case redisClient s' of None \<Rightarrow> True
      | Some r \<Rightarrow> (case redis_get later r key of Inr (Some e) \<Rightarrow> False | _ \<Rightarrow> True))"
    by (auto simp: full_miss_def redis_get_def split: option.splits sum.splits if_splits)
  ultimately show ?thesis by (simp add: full_miss_def)
qed

lemma full_miss_invokes:
  assumes "full_miss now s key"
  shows "invocations (snd (getWithSWR now s key f options)) > invocations s"
proof -
  obtain s0 where "getWithSWR now s key f options =
     (let sm1 = s0\<lparr>missCount := missCount s0 + 1, metrics_misses := metrics_misses s0 + 1\<rparr> in
      case refreshCache now sm1 key f (the_ttl options) of
        (Inr freshData, sm2) \<Rightarrow> (Inr freshData, sm2)
      | (Inl error, sm2) \<Rightarrow>
          (f (invocations sm2),
           sm2\<lparr>metrics_errors := metrics_errors sm2 + 1, invocations := invocations sm2 + 1\<rparr>))"
    and "invocations s0 = invocations s"
    using full_miss_result [OF assms, of f options] by blast
  then show ?thesis
    by (auto simp: refreshCache_def Let_def redis_setex_def
        split: sum.splits option.splits prod.splits if_splits)
qed

text \<open>
  C3. On a miss in both tiers for a key containing \<open>articles\<close>, when the
  caller's function yields an empty array, \<open>getWithSWR\<close> resolves with that empty array
  after one invocation and stores nothing: the key is in neither tier afterwards, no
  entry is added to the memory cache and Redis is untouched. A later \<open>getWithSWR\<close> for
  the same key is therefore again a miss in both tiers and invokes the function it is
  given.
\<close>

theorem empty_articles_not_cached:
  assumes "full_miss now s key"
    and "str_includes key ''articles''"
    and "f (invocations s) = Inr (JArr [])"
    and "now \<le> later"
  shows "(let (r, s') = getWithSWR now s key f options in
            r = Inr (JArr []) \<and> invocations s' = invocations s + 1 \<and>
            map_of (entries (memoryCache s')) key = None \<and>
            set (entries (memoryCache s')) \<subseteq> set (entries (memoryCache s)) \<and>
            redisClient s' = redisClient s \<and>
            full_miss later s' key \<and>
            invocations (snd (getWithSWR later s' key g options')) > invocations s')"
proof -
  obtain s0 where *: "getWithSWR now s key f options =
     (let sm1 = s0\<lparr>missCount := missCount s0 + 1, metrics_misses := metrics_misses s0 + 1\<rparr> in
      case refreshCache now sm1 key f (the_ttl options) of
        (Inr freshData, sm2) \<Rightarrow> (Inr freshData, sm2)
      | (Inl error, sm2) \<Rightarrow>
          (f (invocations sm2),
           sm2\<lparr>metrics_errors := metrics_errors sm2 + 1, invocations := invocations sm2 + 1\<rparr>))"
    and s0: "memoryCache s0 = snd (nc_get now (memoryCache s) key)" "redisClient s0 = redisClient s"
       "invocations s0 = invocations s"
    using full_miss_result [OF assms(1), of f options] by blast
  define s' where "s' = s0\<lparr>missCount := missCount s0 + 1, metrics_misses := metrics_misses s0 + 1,
                         invocations := invocations s0 + 1\<rparr>"
  from * assms(2,3) s0 have res: "getWithSWR now s key f options = (Inr (JArr []), s')"
    by (simp add: refreshCache_def Let_def s'_def)
  have m: "memoryCache s' = snd (nc_get now (memoryCache s) key)"
    and r: "redisClient s' = redisClient s"
    and i: "invocations s' = invocations s + 1"
    using s0 by (simp_all add: s'_def)
  have fm: "full_miss later s' key"
    using full_miss_later [OF assms(1) assms(4) m r] .
  have absent: "map_of (entries (memoryCache s')) key = None"
    using nc_get_None_absent [of now "memoryCache s" key] assms(1) m by (simp add: full_miss_def)
  have sub: "set (entries (memoryCache s')) \<subseteq> set (entries (memoryCache s))"
    using nc_get_subset [of now "memoryCache s" key] m by simp
  show ?thesis
    using res i absent sub r fm full_miss_invokes [OF fm, of g options'] by simp
qed

theorem empty_articles_not_cached_witness:
  "full_miss 0 warmCache ''articles:home:20:0'' \<and>
   str_includes ''articles:home:20:0'' ''articles'' \<and>
   constantly (JArr []) (invocations warmCache) = Inr (JArr []) \<and>
   (0::int) \<le> 5000 \<and>
   fst (getWithSWR 0 warmCache ''articles:home:20:0'' (constantly (JArr [])) defaults) = Inr (JArr []) \<and>
   nc_keys (memoryCache (snd (getWithSWR 0 warmCache ''articles:home:20:0'' (constantly (JArr [])) defaults)))
     = [''search:x:10''] \<and>
   invocations (snd (getWithSWR 5000
      (snd (getWithSWR 0 warmCache ''articles:home:20:0'' (constantly (JArr [])) defaults))
      ''articles:home:20:0'' flaky defaults))
    > invocations (snd (getWithSWR 0 warmCache ''articles:home:20:0'' (constantly (JArr [])) defaults))"
proof -
  have h1: "full_miss 0 warmCache ''articles:home:20:0''"
    by (simp add: full_miss_def example_defs cache_defs)
  have h2: "str_includes ''articles:home:20:0'' ''articles''"
    by simp
  have h3: "constantly (JArr []) (invocations warmCache) = Inr (JArr [])"
    by (simp add: constantly_def)
  have h4: "(0::int) \<le> 5000"
    by simp
  have keys: "nc_keys (memoryCache (snd (getWithSWR 0 warmCache ''articles:home:20:0''
                 (constantly (JArr [])) defaults))) = [''search:x:10'']"
    by (simp add: example_defs cache_defs)
  from empty_articles_not_cached [where f = "constantly (JArr [])" and options = defaults
      and g = flaky and options' = defaults, OF h1 h2 h3 h4] h1 h2 h3 keys
  show ?thesis
    by (simp add: case_prod_beta)
qed

text \<open>
  C10. On a miss in both tiers, when the first invocation of the caller's function
  fails, \<open>getWithSWR\<close> invokes the function a second time: exactly two invocations take
  place and the call settles with the outcome of the second one, its value if it
  succeeds and its error if it fails.
\<close>

theorem miss_retry:
  assumes "full_miss now s key"
    and "f (invocations s) = Inl e1"
  shows "fst (getWithSWR now s key f options) = f (invocations s + 1) \<and>
         invocations (snd (getWithSWR now s key f options)) = invocations s + 2"
proof -
  obtain s0 where *: "getWithSWR now s key f options =
     (let sm1 = s0\<lparr>missCount := missCount s0 + 1, metrics_misses := metrics_misses s0 + 1\<rparr> in
      case refreshCache now sm1 key f (the_ttl options) of
        (Inr freshData, sm2) \<Rightarrow> (Inr freshData, sm2)
      | (Inl error, sm2) \<Rightarrow>
          (f (invocations sm2),
           sm2\<lparr>metrics_errors := metrics_errors sm2 + 1, invocations := invocations sm2 + 1\<rparr>))"
    and s0: "invocations s0 = invocations s"
    using full_miss_result [OF assms(1), of f options] by blast
  from * s0 assms(2) show ?thesis
    by (simp add: refreshCache_def Let_def)
qed

theorem miss_retry_witness:
  "full_miss 0 (initialCache None) ''article:42'' \<and>
   flaky (invocations (initialCache None)) = Inl ''upstream unavailable'' \<and>
   fst (getWithSWR 0 (initialCache None) ''article:42'' flaky defaults) = Inr (JArr [JStr ''story'']) \<and>
   invocations (snd (getWithSWR 0 (initialCache None) ''article:42'' flaky defaults)) = 2"
proof -
  have h1: "full_miss 0 (initialCache None) ''article:42''"
    by (simp add: full_miss_def example_defs cache_defs)
  have h2: "flaky (invocations (initialCache None)) = Inl ''upstream unavailable''"
    by (simp add: example_defs)
  have "invocations (initialCache None) = 0" and "flaky 1 = Inr (JArr [JStr ''story''])"
    by (simp_all add: example_defs)
  with miss_retry [where f = flaky and options = defaults, OF h1 h2] h1 h2 show ?thesis
    by simp
qed

text \<open>
  C4 as stated fails: on a miss in both tiers the first invocation fails, yet the call
  resolves with a value, because the handler falls back to a second, direct invocation.
\<close>

theorem miss_failure_counterexample:
  "full_miss 0 (initialCache None) ''article:42'' \<and>
   flaky (invocations (initialCache None)) = Inl ''upstream unavailable'' \<and>
   fst (getWithSWR 0 (initialCache None) ''article:42'' flaky defaults) = Inr (JArr [JStr ''story''])"
  by (simp add: full_miss_def example_defs cache_defs)

text \<open>
  C4, amended. On a miss in both tiers, when the first invocation of the caller's
  function fails, \<open>getWithSWR\<close> stores nothing: the key is in neither tier afterwards, no
  entry is added to the memory cache and Redis is untouched. The failure reaches the
  caller when the fallback invocation fails as well, and it is then the error of that
  second invocation.
\<close>

theorem miss_failure_not_cached:
  assumes "full_miss now s key"
    and "f (invocations s) = Inl e1"
  shows "(let (r, s') = getWithSWR now s key f options in
            map_of (entries (memoryCache s')) key = None \<and>
            set (entries (memoryCache s')) \<subseteq> set (entries (memoryCache s)) \<and>
            redisClient s' = redisClient s \<and>
            (\<forall>e2. f (invocations s + 1) = Inl e2 \<longrightarrow> r = Inl e2))"
proof -
  obtain s0 where *: "getWithSWR now s key f options =
     (let sm1 = s0\<lparr>missCount := missCount s0 + 1, metrics_misses := metrics_misses s0 + 1\<rparr> in
      case refreshCache now sm1 key f (the_ttl options) of
        (Inr freshData, sm2) \<Rightarrow> (Inr freshData, sm2)
      | (Inl error, sm2) \<Rightarrow>
          (f (invocations sm2),
           sm2\<lparr>metrics_errors := metrics_errors sm2 + 1, invocations := invocations sm2 + 1\<rparr>))"
    and s0: "memoryCache s0 = snd (nc_get now (memoryCache s) key)" "redisClient s0 = redisClient s"
       "invocations s0 = invocations s"
    using full_miss_result [OF assms(1), of f options] by blast
  have absent: "map_of (entries (snd (nc_get now (memoryCache s) key))) key = None"
    using nc_get_None_absent [of now "memoryCache s" key] assms(1) by (simp add: full_miss_def)
  from * s0 assms(2) absent nc_get_subset [of now "memoryCache s" key] show ?thesis
    by (simp add: refreshCache_def Let_def)
qed

theorem miss_failure_not_cached_witness:
  "full_miss 0 warmCache ''article:42'' \<and>
   failing (invocations warmCache) = Inl ''upstream unavailable'' \<and>
   failing (invocations warmCache + 1) = Inl ''upstream unavailable'' \<and>
   fst (getWithSWR 0 warmCache ''article:42'' failing defaults) = Inl ''upstream unavailable'' \<and>
   map_of (entries (memoryCache (snd (getWithSWR 0 warmCache ''article:42'' failing defaults))))
     ''article:42'' = None \<and>
   redisClient (snd (getWithSWR 0 warmCache ''article:42'' failing defaults)) = redisClient warmCache"
proof -
  have h1: "full_miss 0 warmCache ''article:42''"
    by (simp add: full_miss_def example_defs cache_defs)
  have h2: "failing (invocations warmCache) = Inl ''upstream unavailable''"
    and h3: "failing (invocations warmCache + 1) = Inl ''upstream unavailable''"
    by (simp_all add: failing_def)
  from miss_failure_not_cached [where f = failing and options = defaults, OF h1 h2] h1 h2 h3 show ?thesis
    by (simp add: case_prod_beta)
qed

subsection \<open>The key limit and the periodic cleanup\<close>

lemma delete_length_le: "length (AList.delete k al) \<le> length al"
  by (simp add: AList.delete_eq)

lemma update_length_le: "length (AList.update k v al) \<le> Suc (length al)"
  by (induction al) auto

lemma nc_set_within:
  assumes "within_limit c" and "nc_set now c k e ttl = Inr c'"
  shows "within_limit c'"
proof -
  let ?w = "\<lparr>stored = e, livetime = (if ttl = 0 then 0 else now + ttl * 1000)\<rparr>"
  from assms(2) have c': "c' = c\<lparr>entries := AList.update k ?w (entries c)\<rparr>"
    and room: "\<not> (maxKeys c > -1 \<and> int (length (entries c)) \<ge> maxKeys c)"
    by (auto simp: nc_set_def split: if_splits)
  have "int (length (AList.update k ?w (entries c))) \<le> int (length (entries c)) + 1"
    using update_length_le [of k ?w "entries c"] by linarith
  with room have "maxKeys c > -1 \<longrightarrow> int (length (AList.update k ?w (entries c))) \<le> maxKeys c"
    by linarith
  moreover from assms(1) have "distinct (map fst (AList.update k ?w (entries c)))"
    by (simp add: within_limit_def nc_keys_def AList.distinct_update)
  ultimately show ?thesis
    by (simp add: within_limit_def nc_keys_def c')
qed

lemma nc_del_within: "within_limit c \<Longrightarrow> within_limit (nc_del c k)"
  using delete_length_le [of k "entries c"]
  by (auto simp: within_limit_def nc_del_def nc_keys_def AList.distinct_delete)

lemma nc_get_within: "within_limit c \<Longrightarrow> within_limit (snd (nc_get now c k))"
  by (auto simp: nc_get_def nc_del_within split: option.splits)

lemma foldl_nc_del_within: "within_limit c \<Longrightarrow> within_limit (foldl nc_del c ks)"
  by (induction ks arbitrary: c) (auto simp: nc_del_within)

lemma refreshCache_within:
  "within_limit (memoryCache s) \<Longrightarrow> within_limit (memoryCache (snd (refreshCache now s key f ttl)))"
  by (auto simp: refreshCache_def Let_def nc_set_within split: sum.splits option.splits)

lemma getWithSWR_within:
  assumes "within_limit (memoryCache s)"
  shows "within_limit (memoryCache (snd (getWithSWR now s key f options)))"
proof -
  have m: "within_limit (snd (nc_get now (memoryCache s) key))"
    using assms by (rule nc_get_within)
  have miss: "\<And>sm. within_limit (memoryCache sm) \<Longrightarrow>
     within_limit (memoryCache (snd (case refreshCache now sm key f (the_ttl options) of
                  (Inr freshData, sm2) \<Rightarrow> (Inr freshData, sm2)
                | (Inl error, sm2) \<Rightarrow>
                    (f (invocations sm2),
                     sm2\<lparr>metrics_errors := metrics_errors sm2 + 1, invocations := invocations sm2 + 1\<rparr>))))"
    subgoal for sm
      using refreshCache_within [of sm now key f "the_ttl options"]
      by (auto split: prod.splits sum.splits)
    done
  show ?thesis
    using m
    by (cases "nc_get now (memoryCache s) key")
       (auto simp: getWithSWR_def Let_def backgroundRefresh_def nc_set_within
             split: option.splits sum.splits intro!: miss)
qed

lemma runScheduled_within:
  "within_limit (memoryCache s) \<Longrightarrow> within_limit (memoryCache (runScheduled now s))"
  using refreshCache_within
  by (auto simp: runScheduled_def split: list.splits)

lemma cleanup_within:
  "within_limit (memoryCache s) \<Longrightarrow> within_limit (memoryCache (cleanup s))"
  by (simp add: cleanup_def Let_def foldl_nc_del_within)

lemma nc_keys_foldl_del:
  "distinct (ks @ rest) \<Longrightarrow> nc_keys c = ks @ rest \<Longrightarrow> nc_keys (foldl nc_del c ks) = rest"
proof (induction ks arbitrary: c)
  case Nil
  then show ?case by simp
next
  case (Cons k ks)
  have "nc_keys (nc_del c k) = ks @ rest"
  proof -
    from Cons.prems(2) obtain w al where al: "entries c = (k, w) # al"
      and fst: "map fst al = ks @ rest"
      by (cases "entries c") (auto simp: nc_keys_def)
    from Cons.prems(1) fst have "k \<notin> fst ` set al"
      by (metis distinct.simps(2) append_Cons set_map)
    then have "AList.delete k al = al"
      by (simp add: AList.delete_idem)
    with al fst show ?thesis
      by (simp add: nc_del_def nc_keys_def)
  qed
  with Cons show ?case by simp
qed

lemma cleanup_keys:
  assumes "distinct (nc_keys (memoryCache s))"
  shows "nc_keys (memoryCache (cleanup s)) =
           (let keys = nc_keys (memoryCache s); keyCount = length keys in
            if keyCount > 400 then drop (keyCount div 5) keys else keys)"
proof -
  let ?ks = "nc_keys (memoryCache s)"
  let ?n = "length ?ks"
  have "nc_keys (foldl nc_del (memoryCache s) (take (?n div 5) ?ks)) = drop (?n div 5) ?ks"
    using assms nc_keys_foldl_del [of "take (?n div 5) ?ks" "drop (?n div 5) ?ks" "memoryCache s"]
    by simp
  then show ?thesis
    by (simp add: cleanup_def Let_def)
qed

lemma numbered_inj: "inj numbered"
  by (rule injI) (metis numbered_def length_replicate nat.inject)

lemma filled_keys: "nc_keys (memoryCache (filledCache n)) = map numbered [0..<n]"
  by (simp add: filledCache_def nc_keys_def comp_def)

lemma filled_distinct: "distinct (nc_keys (memoryCache (filledCache n)))"
  by (simp add: filled_keys distinct_map inj_on_subset [OF numbered_inj])

text \<open>
  C8 as stated fails. With a limit of five keys, six \<open>getWithSWR\<close> calls for six
  distinct keys leave the five earliest keys in the memory cache: the first key is
  still served, the sixth is not stored, and the cleanup removes nothing. With 401 keys
  the cleanup removes 80 of them, fewer than 20 percent.
\<close>

theorem local_cache_counterexample:
  "nc_keys (memoryCache afterSixInserts) = take 5 sixKeys \<and>
   fst (nc_get 0 (memoryCache afterSixInserts) ''article:1'') = Some \<lparr>data = JNum 1, timestamp = 0\<rparr> \<and>
   fst (nc_get 0 (memoryCache afterSixInserts) ''article:6'') = None \<and>
   cleanup afterSixInserts = afterSixInserts \<and>
   length (nc_keys (memoryCache (filledCache 401))) = 401 \<and>
   length (nc_keys (memoryCache (cleanup (filledCache 401)))) = 321 \<and>
   (401 - 321) * 5 < (401::nat)"
proof -
  have "nc_keys (memoryCache afterSixInserts) = take 5 sixKeys"
    and "fst (nc_get 0 (memoryCache afterSixInserts) ''article:1'')
           = Some \<lparr>data = JNum 1, timestamp = 0\<rparr>"
    and "fst (nc_get 0 (memoryCache afterSixInserts) ''article:6'') = None"
    and "cleanup afterSixInserts = afterSixInserts"
    by (simp_all add: example_defs cache_defs cleanup_def)
  moreover have "length (nc_keys (memoryCache (filledCache 401))) = 401"
    by (simp add: filled_keys)
  moreover have "length (nc_keys (memoryCache (cleanup (filledCache 401)))) = 321"
    using cleanup_keys [OF filled_distinct [of 401]] by (simp add: filled_keys Let_def)
  ultimately show ?thesis
    by simp
qed

text \<open>
  C8, amended. Starting from a memory cache within its key limit, every
  \<open>getWithSWR\<close> call, every background refresh and every cleanup leaves it within the
  limit, so the number of entries never exceeds \<open>maxKeys\<close>. No eviction happens on
  \<open>set\<close>: on a full cache \<open>set\<close> throws and stores nothing. The periodic cleanup
  removes nothing while at most 400 keys are held; above 400 it removes exactly the
  first \<open>keyCount div 5\<close> keys of the listing of \<open>keys()\<close>, which is at most 20
  percent of them.
\<close>

theorem local_cache_bounded:
  assumes "within_limit (memoryCache s)"
  shows "within_limit (memoryCache (snd (getWithSWR now s key f options))) \<and>
         within_limit (memoryCache (runScheduled now s)) \<and>
         within_limit (memoryCache (cleanup s)) \<and>
         (maxKeys (memoryCache s) > -1 \<and>
          int (length (entries (memoryCache s))) \<ge> maxKeys (memoryCache s) \<longrightarrow>
            nc_set now (memoryCache s) key e ttl = Inl ''Cache max keys amount exceeded'') \<and>
         nc_keys (memoryCache (cleanup s)) =
           (let keys = nc_keys (memoryCache s); keyCount = length keys in
            if keyCount > 400 then drop (keyCount div 5) keys else keys)"
proof -
  from assms have "distinct (nc_keys (memoryCache s))"
    by (simp add: within_limit_def)
  then show ?thesis
    using assms getWithSWR_within runScheduled_within cleanup_within cleanup_keys
    by (simp add: nc_set_def)
qed

theorem local_cache_bounded_witness:
  "within_limit (memoryCache afterSixInserts) \<and>
   within_limit (memoryCache (snd (getWithSWR 0 afterSixInserts ''article:6'' flaky defaults))) \<and>
   within_limit (memoryCache (cleanup afterSixInserts)) \<and>
   nc_set 0 (memoryCache afterSixInserts) ''article:6'' \<lparr>data = JNull, timestamp = 0\<rparr> 300
     = Inl ''Cache max keys amount exceeded'' \<and>
   nc_keys (memoryCache (cleanup afterSixInserts)) = take 5 sixKeys"
proof -
  have h: "within_limit (memoryCache afterSixInserts)"
    by (simp add: within_limit_def example_defs cache_defs)
  have full: "maxKeys (memoryCache afterSixInserts) = 5"
    "length (entries (memoryCache afterSixInserts)) = 5"
    "nc_keys (memoryCache afterSixInserts) = take 5 sixKeys"
    by (simp_all add: example_defs cache_defs)
  from local_cache_bounded [OF h, of 0 "''article:6''" flaky defaults
      "\<lparr>data = JNull, timestamp = 0\<rparr>" 300] h full
  show ?thesis
    by (simp add: Let_def sixKeys_def)
qed

section \<open>Properties of the commentary worker\<close>

lemma sortByPriority_sorted: "sortedDescending (sortByPriority q)"
proof -
  have "sorted (map (\<lambda>j. - job.priority j) (sortByPriority q))"
    by (simp add: sortByPriority_def)
  then show ?thesis
    by (simp add: sortedDescending_def sorted_map sorted_wrt_iff_nth_less)
qed

lemma transient_class: "transient message \<Longrightarrow> rateLimitOrTimeout message"
  by (auto simp: transient_def rateLimitOrTimeout_def)

text \<open>
  C9 as stated fails, in two ways. A job of priority 1 whose processing fails with a
  rate-limit error is put back with priority 1, not with a lower one. And a job whose
  processing fails with the rate limiter's queue timeout,
  \<open>Request <id> timed out in queue\<close>, is not put back at all.
\<close>

theorem failed_job_counterexample:
  "commentaryWorker.queue
     (worker_processQueue rateLimited saveOk (workerWith [lowJob]))
   = [lowJob] \<and> job.priority lowJob = 1 \<and>
   commentaryWorker.queue
     (worker_processQueue timedOutInQueue saveOk (workerWith [urgentJob, lowJob]))
   = [lowJob]"
  by (simp add: worker_processQueue_def workerWith_def newCommentaryWorker_def lowJob_def
      rateLimited_def timedOutInQueue_def sortByPriority_def Let_def)

text \<open>
  C9, amended. When the worker takes a job and its processing fails (the generation
  throws, or the save throws), then: if the error is a rate-limit or timeout error whose
  message contains \<open>Rate limit\<close> or \<open>timeout\<close>, the job is put back with priority
  \<open>max 1 (priority - 1)\<close>, that is one lower but never below 1, and the queue is
  re-sorted by descending priority, keeping all other jobs; if the error is not a
  rate-limit or timeout error, the job is dropped and the queue is the remaining jobs.
\<close>

theorem failed_job:
  assumes "commentaryWorker.queue w = j # rest"
    and "processedToday w < maxDailyCommentaries w"
    and "failsWith gen save j message"
  shows "(transient message \<longrightarrow>
            rateLimitOrTimeout message \<and>
            commentaryWorker.queue (worker_processQueue gen save w) =
              sortByPriority (rest @ [j\<lparr>job.priority := max 1 (job.priority j - 1)\<rparr>])) \<and>
         (\<not> rateLimitOrTimeout message \<longrightarrow>
            commentaryWorker.queue (worker_processQueue gen save w) = rest) \<and>
         sortedDescending (sortByPriority (rest @ [j\<lparr>job.priority := max 1 (job.priority j - 1)\<rparr>])) \<and>
         mset (sortByPriority (rest @ [j\<lparr>job.priority := max 1 (job.priority j - 1)\<rparr>])) =
           mset rest + {#j\<lparr>job.priority := max 1 (job.priority j - 1)\<rparr>#}"
proof -
  have "commentaryWorker.queue (worker_processQueue gen save w) =
          (if transient message
           then sortByPriority (rest @ [j\<lparr>job.priority := max 1 (job.priority j - 1)\<rparr>])
           else rest)"
    using assms
    by (auto simp: worker_processQueue_def failsWith_def transient_def Let_def
        split: sum.splits option.splits)
  then show ?thesis
    using sortByPriority_sorted transient_class [of message]
    by (auto simp: sortByPriority_def)
qed

theorem failed_job_witness:
  "commentaryWorker.queue (workerWith [urgentJob, lowJob]) = urgentJob # [lowJob] \<and>
   processedToday (workerWith [urgentJob, lowJob]) < maxDailyCommentaries (workerWith [urgentJob, lowJob]) \<and>
   failsWith rateLimited saveOk urgentJob ''Rate limit exceeded'' \<and>
   transient ''Rate limit exceeded'' \<and>
   map articleId (commentaryWorker.queue (worker_processQueue rateLimited saveOk (workerWith [urgentJob, lowJob])))
     = [''a1'', ''a2''] \<and>
   map job.priority (commentaryWorker.queue (worker_processQueue rateLimited saveOk (workerWith [urgentJob, lowJob])))
     = [8, 1] \<and>
   failsWith notFound saveOk urgentJob ''Article not found'' \<and>
   \<not> rateLimitOrTimeout ''Article not found'' \<and>
   commentaryWorker.queue (worker_processQueue notFound saveOk (workerWith [urgentJob, lowJob]))
     = [lowJob]"
proof -
  have h1: "commentaryWorker.queue (workerWith [urgentJob, lowJob]) = urgentJob # [lowJob]"
    by (simp add: workerWith_def)
  have h2: "processedToday (workerWith [urgentJob, lowJob])
              < maxDailyCommentaries (workerWith [urgentJob, lowJob])"
    by (simp add: workerWith_def newCommentaryWorker_def)
  have h3: "failsWith rateLimited saveOk urgentJob ''Rate limit exceeded''"
    by (simp add: failsWith_def rateLimited_def)
  have h4: "transient ''Rate limit exceeded''"
    by (simp add: transient_def)
  have h5: "failsWith notFound saveOk urgentJob ''Article not found''"
    by (simp add: failsWith_def notFound_def)
  have h6: "\<not> rateLimitOrTimeout ''Article not found''"
    by (simp add: rateLimitOrTimeout_def)
  from failed_job [OF h1 h2 h3] failed_job [OF h1 h2 h5] h1 h2 h3 h4 h5 h6 show ?thesis
    by (simp add: sortByPriority_def urgentJob_def lowJob_def)
qed

section \<open>Properties of the rate limiter\<close>

lemmas limiter_defs = run_def executeRequest_def executeImmediate_def executeImmediate_resumed_def
  queueRequest_def processQueue_def processLoop_def resume_def removeFromQueue_def
  fireTimer_def refill_def settle_def clearTimeout_def roundDouble_def
  the_estimatedTokens_def the_reqPriority_def the_timeout_def Let_def

lemmas limiter_examples = limiter100_def newGroqRateLimiter_def request_def succeed_def
  reject_def failsAfterRefill_def twoMore_def twoHighQueued_def mixedQueued_def
  refillAndSettle_def oneQueued_def

subsection \<open>Token arithmetic\<close>

lemma roundDouble_small: "\<bar>n\<bar> < 2 ^ 53 \<Longrightarrow> roundDouble n = n"
  by (simp add: roundDouble_def)

lemma bitLength_bounds: "2 ^ k \<le> n \<Longrightarrow> n < 2 ^ Suc k \<Longrightarrow> bitLength n = Suc k"
proof (induction k arbitrary: n)
  case 0
  then have "n = Suc 0" by simp
  then show ?case
    by (simp add: bitLength.simps [of "Suc 0"] bitLength.simps [of 0])
next
  case (Suc k)
  then have "2 ^ k \<le> n div 2" "n div 2 < 2 ^ Suc k" "n \<noteq> 0"
    by auto
  with Suc.IH [of "n div 2"] show ?case
    by (simp add: bitLength.simps [of n])
qed

lemma roundDouble_examples:
  "roundDouble 9007199254740993 = 9007199254740992 \<and>
   roundDouble 9007199254740995 = 9007199254740996"
proof -
  have "bitLength 9007199254740993 = 54" "bitLength 9007199254740995 = 54"
    using bitLength_bounds [of 53 9007199254740993] bitLength_bounds [of 53 9007199254740995]
    by simp_all
  then show ?thesis
    by (simp add: roundDouble_def Let_def)
qed

subsection \<open>Fields left alone\<close>

lemma settle_fields [simp]:
  "availableTokens (settle p r s) = availableTokens s"
  "tokensUsed (settle p r s) = tokensUsed s"
  "queue (settle p r s) = queue s"
  "executing (settle p r s) = executing s"
  "timers (settle p r s) = timers s"
  "nextHandle (settle p r s) = nextHandle s"
  "inflight (settle p r s) = inflight s"
  by (simp_all add: settle_def)

lemma clearTimeout_fields [simp]:
  "availableTokens (clearTimeout h s) = availableTokens s"
  "queue (clearTimeout h s) = queue s"
  "executing (clearTimeout h s) = executing s"
  "settled (clearTimeout h s) = settled s"
  "nextHandle (clearTimeout h s) = nextHandle s"
  "inflight (clearTimeout h s) = inflight s"
  by (simp_all add: clearTimeout_def)

lemma executeImmediate_fields [simp]:
  "queue (executeImmediate s fn tokens rid start aw) = queue s"
  "settled (executeImmediate s fn tokens rid start aw) = settled s"
  "timers (executeImmediate s fn tokens rid start aw) = timers s"
  "nextHandle (executeImmediate s fn tokens rid start aw) = nextHandle s"
  "executing (executeImmediate s fn tokens rid start aw) = executing s @ [rid]"
  by (simp_all add: executeImmediate_def)

lemma executeImmediate_resumed_fields [simp]:
  "queue (snd (executeImmediate_resumed now s c)) = queue s"
  "settled (snd (executeImmediate_resumed now s c)) = settled s"
  "timers (snd (executeImmediate_resumed now s c)) = timers s"
  "nextHandle (snd (executeImmediate_resumed now s c)) = nextHandle s"
  "executing (snd (executeImmediate_resumed now s c)) = executing s"
  "inflight (snd (executeImmediate_resumed now s c)) = inflight s"
  by (simp_all add: executeImmediate_resumed_def split: sum.splits)

lemma removeFromQueue_fields [simp]:
  "availableTokens (removeFromQueue s rid) = availableTokens s"
  "executing (removeFromQueue s rid) = executing s"
  "settled (removeFromQueue s rid) = settled s"
  "nextHandle (removeFromQueue s rid) = nextHandle s"
  "inflight (removeFromQueue s rid) = inflight s"
  by (simp_all add: removeFromQueue_def Let_def)

subsection \<open>The token budget\<close>

text \<open>
  C6. The limiter has a capacity of 100 tokens. A request of 80 tokens is admitted
  shortly before the refill, leaving 20. Its request function is still running when the
  refill sets the bucket to 100, and fails afterwards: the refund raises the bucket to
  180, not back to the 100 it held before the call. In that same window a request of 100
  tokens and a request of 80 tokens are then both admitted, 180 tokens against a
  capacity of 100.
\<close>

theorem refund_after_refill:
  "tokensPerMinute limiter100 = 100 \<and>
   availableTokens limiter100 = 100 \<and>
   availableTokens (run limiter100 failsAfterRefill) = 180 \<and>
   settled (run limiter100 failsAfterRefill) 0 = Some (Inl ''503 Service Unavailable'') \<and>
   executing (run limiter100 (failsAfterRefill @ twoMore)) = [''r0'', ''r1'', ''r2''] \<and>
   availableTokens (run limiter100 (failsAfterRefill @ twoMore)) = 0"
  by (simp add: limiter_examples limiter_defs)

subsection \<open>The order of the queue\<close>

lemma queueRequest_ordered:
  assumes "ordered s"
  shows "ordered (snd (queueRequest now s fn tokens prio ms rid start))"
proof -
  let ?e = "\<lparr>requestFunction = fn, estimatedTokens = tokens, priority = prio, requestId = rid,
             startTime = start, promise = nextHandle s, timeout = nextHandle s\<rparr>"
  from assms have sw: "sorted_wrt servedBefore (queue s)"
    and lt: "\<forall>e \<in> set (queue s). promise e < nextHandle s"
    by (simp_all add: ordered_def)
  show ?thesis
  proof (cases "prio = ''high''")
    case True
    from lt have "\<forall>x \<in> set (queue s). servedBefore ?e x"
      by (simp add: servedBefore_def isHigh_def True)
    with sw lt True show ?thesis
      by (auto simp: ordered_def queueRequest_def Let_def less_Suc_eq)
  next
    case False
    from lt have "\<forall>x \<in> set (queue s). servedBefore x ?e"
      by (simp add: servedBefore_def isHigh_def False)
    with sw lt False show ?thesis
      by (auto simp: ordered_def queueRequest_def Let_def less_Suc_eq sorted_wrt_append)
  qed
qed

lemma executeRequest_ordered:
  assumes "ordered s"
  shows "ordered (snd (executeRequest now s fn options rid))"
proof (cases "the_estimatedTokens options \<le> availableTokens s")
  case True
  with assms show ?thesis
    by (auto simp: executeRequest_def Let_def ordered_def less_Suc_eq)
next
  case False
  with queueRequest_ordered [OF assms] show ?thesis
    by (simp add: executeRequest_def Let_def)
qed

lemma processLoop_prefix:
  "\<exists>k. executing (processLoop s) = executing s @ map requestId (take k (queue s)) \<and>
       queue (processLoop s) = drop k (queue s) \<and>
       nextHandle (processLoop s) = nextHandle s"
proof (cases "queue s")
  case Nil
  then show ?thesis by (simp add: processLoop_def)
next
  case (Cons e rest)
  show ?thesis
  proof (cases "availableTokens s > 0 \<and> availableTokens s \<ge> estimatedTokens e")
    case False
    with Cons have "processLoop s = s"
      by (auto simp: processLoop_def)
    then show ?thesis by (auto intro: exI [of _ 0])
  next
    case True
    with Cons show ?thesis
      by (auto simp: processLoop_def intro!: exI [of _ "Suc 0"])
  qed
qed

lemma processLoop_ordered: "ordered s \<Longrightarrow> ordered (processLoop s)"
proof -
  assume o: "ordered s"
  obtain k where "queue (processLoop s) = drop k (queue s)"
    "nextHandle (processLoop s) = nextHandle s"
    using processLoop_prefix [of s] by blast
  with o show ?thesis
    by (auto simp: ordered_def sorted_wrt_drop dest: in_set_dropD)
qed

lemma processQueue_ordered: "ordered s \<Longrightarrow> ordered (processQueue s)"
  by (simp add: processQueue_def processLoop_ordered)

lemma refill_ordered: "ordered s \<Longrightarrow> ordered (refill s)"
  unfolding refill_def by (rule processQueue_ordered) (simp add: ordered_def)

lemma resume_ordered:
  assumes "ordered s"
  shows "ordered (resume now s k)"
proof (cases "inflight s k")
  case None
  with assms show ?thesis by (simp add: resume_def)
next
  case (Some c)
  obtain r s' where ex: "executeImmediate_resumed now (s\<lparr>inflight := (inflight s)(k := None)\<rparr>) c = (r, s')"
    by (cases "executeImmediate_resumed now (s\<lparr>inflight := (inflight s)(k := None)\<rparr>) c")
  have "queue s' = queue s" "nextHandle s' = nextHandle s"
    using executeImmediate_resumed_fields(1,4) [of now "s\<lparr>inflight := (inflight s)(k := None)\<rparr>" c] ex
    by simp_all
  with assms have "ordered (settle p r s')" for p
    by (simp add: ordered_def)
  with Some ex show ?thesis
    by (cases "sus_awaiter c") (simp_all add: resume_def processLoop_ordered)
qed

lemma findIndex_range:
  "findIndex P xs = -1 \<or> (0 \<le> findIndex P xs \<and> nat (findIndex P xs) < length xs)"
  by (induction xs) (auto simp: Let_def)

lemma sorted_wrt_remove_nth:
  assumes "sorted_wrt P xs" and "i < length xs"
  shows "sorted_wrt P (take i xs @ drop (Suc i) xs)"
proof -
  have "xs = take i xs @ xs ! i # drop (Suc i) xs"
    using assms(2) by (simp add: id_take_nth_drop)
  with assms(1) have "sorted_wrt P (take i xs @ xs ! i # drop (Suc i) xs)"
    by simp
  then show ?thesis
    by (simp add: sorted_wrt_append)
qed

lemma removeFromQueue_ordered: "ordered s \<Longrightarrow> ordered (removeFromQueue s rid)"
  using findIndex_range [of "\<lambda>entry. requestId entry = rid" "queue s"]
  by (auto simp: removeFromQueue_def Let_def ordered_def sorted_wrt_remove_nth
      dest: in_set_takeD in_set_dropD)

lemma fireTimer_ordered: "ordered s \<Longrightarrow> ordered (fireTimer now s h)"
proof -
  assume o: "ordered s"
  have "ordered (removeFromQueue (s\<lparr>timers := (timers s)(h := None)\<rparr>) rid)" for rid
    by (rule removeFromQueue_ordered) (use o in \<open>simp add: ordered_def\<close>)
  then show ?thesis
    using o by (auto simp: fireTimer_def ordered_def split: option.splits)
qed

lemma step_ordered: "ordered s \<Longrightarrow> ordered (step s ev)"
  by (cases ev; cases "snd ev")
     (auto simp: executeRequest_ordered processQueue_ordered refill_ordered fireTimer_ordered
        resume_ordered)

lemma run_ordered: "ordered s \<Longrightarrow> ordered (run s evs)"
  unfolding run_def by (induction evs arbitrary: s) (auto simp: step_ordered)

lemma processQueue_prefix:
  "\<exists>k. executing (processQueue s) = executing s @ map requestId (take k (queue s)) \<and>
       queue (processQueue s) = drop k (queue s)"
  using processLoop_prefix [of s]
  by (auto simp: processQueue_def)

lemma resume_prefix:
  "\<exists>k. executing (resume now s c) = executing s @ map requestId (take k (queue s)) \<and>
       queue (resume now s c) = drop k (queue s)"
proof (cases "inflight s c")
  case None
  then show ?thesis by (auto simp: resume_def intro: exI [of _ 0])
next
  case (Some a)
  obtain r s' where ex: "executeImmediate_resumed now (s\<lparr>inflight := (inflight s)(c := None)\<rparr>) a = (r, s')"
    by (cases "executeImmediate_resumed now (s\<lparr>inflight := (inflight s)(c := None)\<rparr>) a")
  have s': "queue s' = queue s" "executing s' = executing s"
    using executeImmediate_resumed_fields(1,5) [of now "s\<lparr>inflight := (inflight s)(c := None)\<rparr>" a] ex
    by simp_all
  show ?thesis
  proof (cases "sus_awaiter a")
    case (Caller p)
    with Some ex s' show ?thesis
      by (auto simp: resume_def intro: exI [of _ 0])
  next
    case (Loop p)
    with Some ex have "resume now s c = processLoop (settle p r s')"
      by (simp add: resume_def)
    with processLoop_prefix [of "settle p r s'"] s' show ?thesis
      by auto
  qed
qed

text \<open>
  C5 as stated fails: two high-priority requests queued one after the other are served
  in the reverse order once the budget is refilled.
\<close>

theorem dispatch_fifo_counterexample:
  "map requestId (queue (run limiter100 twoHighQueued)) = [''second'', ''first''] \<and>
   map priority (queue (run limiter100 twoHighQueued)) = [''high'', ''high''] \<and>
   executing (run limiter100 (twoHighQueued @ [(60000, Refill), (60100, Settles 1)]))
     = [''r0'', ''second'', ''first'']"
  by (simp add: limiter_examples limiter_defs)

text \<open>
  C5, amended. In every state the limiter reaches, the queue is in serving order:
  queued high-priority requests come before all queued normal- and low-priority
  requests; normal- and low-priority requests stand in the order they were queued
  (first in, first out, as one tier); high-priority requests stand in the reverse of the
  order they were queued (last in, first out); promise handles are allocated in
  increasing order, so a later request gets a larger handle. Whenever the queue is
  processed, on a tick, after a refill, or when the loop goes round again after a served
  request has settled, a prefix of the queue is served in exactly that order and the
  rest stays queued.
\<close>

theorem dispatch_order:
  "sorted_wrt servedBefore (queue (run (newGroqRateLimiter tpm) evs)) \<and>
   (\<forall>e \<in> set (queue (run (newGroqRateLimiter tpm) evs)).
      promise e < nextHandle (run (newGroqRateLimiter tpm) evs)) \<and>
   (\<exists>k. executing (processQueue s) = executing s @ map requestId (take k (queue s)) \<and>
         queue (processQueue s) = drop k (queue s)) \<and>
   (\<exists>k. executing (refill s) = executing s @ map requestId (take k (queue s)) \<and>
         queue (refill s) = drop k (queue s)) \<and>
   (\<exists>k. executing (resume now s c) = executing s @ map requestId (take k (queue s)) \<and>
         queue (resume now s c) = drop k (queue s))"
proof -
  have "ordered (newGroqRateLimiter tpm)"
    by (simp add: ordered_def newGroqRateLimiter_def Let_def)
  then have "ordered (run (newGroqRateLimiter tpm) evs)"
    by (rule run_ordered)
  moreover have "\<exists>k. executing (refill s) = executing s @ map requestId (take k (queue s)) \<and>
         queue (refill s) = drop k (queue s)"
    using processQueue_prefix [of "s\<lparr>availableTokens := tokensPerMinute s\<rparr>"]
    by (simp add: refill_def)
  ultimately show ?thesis
    using processQueue_prefix [of s] resume_prefix [of now s c]
    by (simp add: ordered_def)
qed

theorem dispatch_order_witness:
  "sorted_wrt servedBefore (queue (run (newGroqRateLimiter (Some 100)) (twoHighQueued @ mixedQueued))) \<and>
   map requestId (queue (run (newGroqRateLimiter (Some 100)) (twoHighQueued @ mixedQueued)))
     = [''second'', ''first'', ''third'', ''fourth''] \<and>
   executing (refill (run (newGroqRateLimiter (Some 100)) (twoHighQueued @ mixedQueued)))
     = [''r0'', ''second''] \<and>
   map requestId (queue (refill (run (newGroqRateLimiter (Some 100)) (twoHighQueued @ mixedQueued))))
     = [''first'', ''third'', ''fourth''] \<and>
   executing (run (newGroqRateLimiter (Some 100)) (twoHighQueued @ mixedQueued @ refillAndSettle))
     = [''r0'', ''second'', ''first'', ''third'', ''fourth''] \<and>
   queue (run (newGroqRateLimiter (Some 100)) (twoHighQueued @ mixedQueued @ refillAndSettle)) = []"
proof -
  have "map requestId (queue (run (newGroqRateLimiter (Some 100)) (twoHighQueued @ mixedQueued)))
     = [''second'', ''first'', ''third'', ''fourth'']"
    and "executing (refill (run (newGroqRateLimiter (Some 100)) (twoHighQueued @ mixedQueued)))
     = [''r0'', ''second'']"
    and "map requestId (queue (refill (run (newGroqRateLimiter (Some 100)) (twoHighQueued @ mixedQueued))))
     = [''first'', ''third'', ''fourth'']"
    and "executing (run (newGroqRateLimiter (Some 100)) (twoHighQueued @ mixedQueued @ refillAndSettle))
     = [''r0'', ''second'', ''first'', ''third'', ''fourth'']"
    and "queue (run (newGroqRateLimiter (Some 100)) (twoHighQueued @ mixedQueued @ refillAndSettle)) = []"
    by (simp_all add: limiter_examples limiter_defs)
  with dispatch_order [of "Some 100" "twoHighQueued @ mixedQueued"
      "run (newGroqRateLimiter (Some 100)) (twoHighQueued @ mixedQueued)" 60000 0]
  show ?thesis
    by simp
qed

subsection \<open>Queue timeouts\<close>

lemma findIndex_none: "findIndex P xs = -1 \<longleftrightarrow> (\<forall>x \<in> set xs. \<not> P x)"
proof (induction xs)
  case Nil
  then show ?case by simp
next
  case (Cons x xs)
  have "findIndex P xs = -1 \<or> 0 \<le> findIndex P xs"
    using findIndex_range [of P xs] by auto
  then have "findIndex P xs + 1 = -1 \<longleftrightarrow> False"
    by auto
  with Cons show ?case
    by (simp add: Let_def)
qed

lemma findIndex_first:
  "findIndex P xs \<noteq> -1 \<Longrightarrow> P (xs ! nat (findIndex P xs))"
proof (induction xs)
  case Nil
  then show ?case by simp
next
  case (Cons x xs)
  show ?case
  proof (cases "P x")
    case True
    then show ?thesis by simp
  next
    case False
    with Cons.prems have ne: "findIndex P xs \<noteq> -1"
      by (auto simp: Let_def split: if_splits)
    with findIndex_range [of P xs] have "0 \<le> findIndex P xs" by auto
    then have "nat (findIndex P xs + 1) = Suc (nat (findIndex P xs))" by simp
    with False ne Cons.IH show ?thesis
      by (simp add: Let_def)
  qed
qed

lemma remove_nth_distinct:
  assumes "distinct (map g xs)" and "i < length xs"
  shows "g (xs ! i) \<notin> g ` set (take i xs @ drop (Suc i) xs)"
proof -
  have "xs = take i xs @ xs ! i # drop (Suc i) xs"
    using assms(2) by (simp add: id_take_nth_drop)
  then have "distinct (map g (take i xs @ xs ! i # drop (Suc i) xs))"
    using assms(1) by simp
  then show ?thesis
    by auto
qed

lemma distinct_remove_nth:
  "distinct xs \<Longrightarrow> distinct (take i xs @ drop (Suc i) xs)"
  using set_take_disj_set_drop_if_distinct [of xs i "Suc i"]
  by simp

lemma removeFromQueue_queue_subset:
  "set (queue (removeFromQueue s rid)) \<subseteq> set (queue s)"
  by (auto simp: removeFromQueue_def Let_def dest: in_set_takeD in_set_dropD)

lemma removeFromQueue_removes:
  assumes "distinct (map requestId (queue s))"
  shows "rid \<notin> requestId ` set (queue (removeFromQueue s rid))"
proof (cases "findIndex (\<lambda>entry. requestId entry = rid) (queue s) = -1")
  case True
  then show ?thesis
    by (auto simp: removeFromQueue_def findIndex_none)
next
  case False
  let ?i = "nat (findIndex (\<lambda>entry. requestId entry = rid) (queue s))"
  from False findIndex_range [of "\<lambda>entry. requestId entry = rid" "queue s"]
  have i: "?i < length (queue s)" by auto
  from False have "requestId (queue s ! ?i) = rid"
    by (rule findIndex_first)
  with remove_nth_distinct [OF assms i] False show ?thesis
    by (simp add: removeFromQueue_def Let_def)
qed

lemma settle_keeps: "settled s p = Some x \<Longrightarrow> settled (settle q r s) p = Some x"
  by (auto simp: settle_def)

lemma processLoop_settled: "settled (processLoop s) = settled s"
  by (simp add: processLoop_def split: list.splits)

lemma processLoop_gone:
  assumes "gone rid p x s"
  shows "gone rid p x (processLoop s) \<and>
         (\<exists>new. executing (processLoop s) = executing s @ new \<and> rid \<notin> set new)"
proof -
  obtain k where k: "executing (processLoop s) = executing s @ map requestId (take k (queue s))"
    "queue (processLoop s) = drop k (queue s)"
    using processLoop_prefix [of s] by blast
  from assms have "rid \<notin> set (map requestId (take k (queue s)))"
    by (auto simp: gone_def dest: in_set_takeD)
  moreover from assms k(2) have "rid \<notin> requestId ` set (queue (processLoop s))"
    by (auto simp: gone_def dest: in_set_dropD)
  moreover from assms have "settled (processLoop s) p = Some x"
    by (simp add: gone_def processLoop_settled)
  ultimately show ?thesis
    using k(1) by (auto simp: gone_def)
qed

lemma processQueue_gone:
  assumes "gone rid p x s"
  shows "gone rid p x (processQueue s) \<and>
         (\<exists>new. executing (processQueue s) = executing s @ new \<and> rid \<notin> set new)"
  using processLoop_gone [OF assms] assms
  by (simp add: processQueue_def)

lemma refill_gone:
  assumes "gone rid p x s"
  shows "gone rid p x (refill s) \<and>
         (\<exists>new. executing (refill s) = executing s @ new \<and> rid \<notin> set new)"
proof -
  from assms have "gone rid p x (s\<lparr>availableTokens := tokensPerMinute s\<rparr>)"
    by (simp add: gone_def)
  from processQueue_gone [OF this] show ?thesis
    by (simp add: refill_def)
qed

lemma executeRequest_gone:
  assumes "gone rid p x s" and "rid' \<noteq> rid"
  shows "gone rid p x (snd (executeRequest now s fn options rid')) \<and>
         (\<exists>new. executing (snd (executeRequest now s fn options rid')) = executing s @ new \<and> rid \<notin> set new)"
  using assms
  by (auto simp: executeRequest_def Let_def queueRequest_def gone_def)

lemma fireTimer_gone:
  assumes "gone rid p x s"
  shows "gone rid p x (fireTimer now s h) \<and> executing (fireTimer now s h) = executing s"
proof -
  have "rid \<notin> requestId ` set (queue (removeFromQueue (s\<lparr>timers := (timers s)(h := None)\<rparr>) r))" for r
    using removeFromQueue_queue_subset [of "s\<lparr>timers := (timers s)(h := None)\<rparr>" r] assms
    by (auto simp: gone_def)
  with assms show ?thesis
    by (auto simp: fireTimer_def gone_def settle_keeps split: option.splits)
qed

lemma resume_gone:
  assumes "gone rid p x s"
  shows "gone rid p x (resume now s k) \<and>
         (\<exists>new. executing (resume now s k) = executing s @ new \<and> rid \<notin> set new)"
proof (cases "inflight s k")
  case None
  with assms show ?thesis by (simp add: resume_def)
next
  case (Some c)
  obtain r s' where ex: "executeImmediate_resumed now (s\<lparr>inflight := (inflight s)(k := None)\<rparr>) c = (r, s')"
    by (cases "executeImmediate_resumed now (s\<lparr>inflight := (inflight s)(k := None)\<rparr>) c")
  have s': "queue s' = queue s" "executing s' = executing s" "settled s' = settled s"
    using executeImmediate_resumed_fields(1,2,5) [of now "s\<lparr>inflight := (inflight s)(k := None)\<rparr>" c] ex
    by simp_all
  have g: "gone rid p x (settle q r s')" and e: "executing (settle q r s') = executing s" for q
    using assms s' by (simp_all add: gone_def settle_keeps)
  show ?thesis
  proof (cases "sus_awaiter c")
    case (Caller q)
    with Some ex g [of q] e [of q] show ?thesis
      by (simp add: resume_def)
  next
    case (Loop q)
    with Some ex have "resume now s k = processLoop (settle q r s')"
      by (simp add: resume_def)
    with processLoop_gone [OF g [of q]] e [of q] show ?thesis
      by simp
  qed
qed

lemma step_gone:
  assumes "gone rid p x s" and "rid \<notin> set (submittedIds [ev])"
  shows "gone rid p x (step s ev) \<and>
         (\<exists>new. executing (step s ev) = executing s @ new \<and> rid \<notin> set new)"
proof (cases ev)
  case (Pair now a)
  show ?thesis
  proof (cases a)
    case (ExecuteRequest fn options rid')
    with Pair assms(2) have "rid' \<noteq> rid" by auto
    from executeRequest_gone [OF assms(1) this] Pair ExecuteRequest show ?thesis by simp
  next
    case ProcessQueue
    with Pair processQueue_gone [OF assms(1)] show ?thesis by simp
  next
    case Refill
    with Pair refill_gone [OF assms(1)] show ?thesis by simp
  next
    case (FireTimer h)
    with Pair fireTimer_gone [OF assms(1)] show ?thesis by simp
  next
    case (Settles k)
    with Pair resume_gone [OF assms(1)] show ?thesis by simp
  qed
qed

lemma submittedIds_Cons:
  "set (submittedIds (ev # evs)) = set (submittedIds [ev]) \<union> set (submittedIds evs)"
  by (cases ev; cases "snd ev") auto

lemma submittedIds_append: "submittedIds (xs @ ys) = submittedIds xs @ submittedIds ys"
  by (induction xs rule: submittedIds.induct) auto

lemma run_gone:
  assumes "gone rid p x s" and "rid \<notin> set (submittedIds evs)"
  shows "gone rid p x (run s evs) \<and>
         (\<exists>new. executing (run s evs) = executing s @ new \<and> rid \<notin> set new)"
  using assms
proof (induction evs arbitrary: s)
  case Nil
  then show ?case by (simp add: run_def)
next
  case (Cons ev evs)
  from Cons.prems(2) have a: "rid \<notin> set (submittedIds [ev])" and b: "rid \<notin> set (submittedIds evs)"
    using submittedIds_Cons [of ev evs] by auto
  from step_gone [OF Cons.prems(1) a] obtain new1 where
    g1: "gone rid p x (step s ev)" and e1: "executing (step s ev) = executing s @ new1" "rid \<notin> set new1"
    by blast
  from Cons.IH [OF g1 b] obtain new2 where
    g2: "gone rid p x (run (step s ev) evs)"
    and e2: "executing (run (step s ev) evs) = executing (step s ev) @ new2" "rid \<notin> set new2"
    by blast
  have "run s (ev # evs) = run (step s ev) evs" by (simp add: run_def)
  with g2 e1 e2 show ?case
    by (auto intro!: exI [of _ "new1 @ new2"])
qed

lemma fireTimer_due:
  assumes "distinct (map requestId (queue s))"
    and "timers s h = Some (rid, p, due)"
    and "settled s p = None"
    and "due \<le> now"
  shows "gone rid p (Inl (''Request '' @ rid @ '' timed out in queue'')) (fireTimer now s h) \<and>
         executing (fireTimer now s h) = executing s"
proof -
  let ?s1 = "s\<lparr>timers := (timers s)(h := None)\<rparr>"
  have "rid \<notin> requestId ` set (queue (removeFromQueue ?s1 rid))"
    by (rule removeFromQueue_removes) (use assms(1) in simp)
  with assms(2-4) show ?thesis
    by (simp add: fireTimer_def gone_def settle_def)
qed

lemma wellformed_initial: "wellformed {} (newGroqRateLimiter tpm)"
  by (simp add: wellformed_def newGroqRateLimiter_def Let_def)

text \<open>Changes that touch neither the queue, the timers nor the settled promises.\<close>

lemma wellformed_frame:
  assumes wf: "wellformed ids s" and sub: "ids \<subseteq> ids'"
    and q: "queue s' = queue s" and t: "timers s' = timers s" and st: "settled s' = settled s"
    and n: "nextHandle s \<le> nextHandle s'"
    and fl: "\<forall>k c. inflight s' k = Some c \<longrightarrow>
               inflight s k = Some c \<or>
               (awaited (sus_awaiter c) < nextHandle s' \<and>
                awaited (sus_awaiter c) \<notin> promise ` set (queue s))"
  shows "wellformed ids' s'"
proof -
  from wf have a: "\<forall>e \<in> set (queue s).
        promise e < nextHandle s \<and> timeout e = promise e \<and> settled s (promise e) = None \<and>
        (\<exists>due. timers s (promise e) = Some (requestId e, promise e, due))"
    and b: "\<forall>p x. settled s p = Some x \<longrightarrow> p < nextHandle s"
    and c: "\<forall>k c. inflight s k = Some c \<longrightarrow>
        awaited (sus_awaiter c) < nextHandle s \<and>
        awaited (sus_awaiter c) \<notin> promise ` set (queue s)"
    by (simp_all add: wellformed_def)
  from a n have a': "\<forall>e \<in> set (queue s').
        promise e < nextHandle s' \<and> timeout e = promise e \<and> settled s' (promise e) = None \<and>
        (\<exists>due. timers s' (promise e) = Some (requestId e, promise e, due))"
    by (auto simp: q t st)
  from b n have b': "\<forall>p x. settled s' p = Some x \<longrightarrow> p < nextHandle s'"
    by (auto simp: st)
  have c': "\<forall>k c. inflight s' k = Some c \<longrightarrow>
        awaited (sus_awaiter c) < nextHandle s' \<and>
        awaited (sus_awaiter c) \<notin> promise ` set (queue s')"
  proof (intro allI impI)
    fix k c assume "inflight s' k = Some c"
    with fl have "inflight s k = Some c \<or>
               (awaited (sus_awaiter c) < nextHandle s' \<and>
                awaited (sus_awaiter c) \<notin> promise ` set (queue s))"
      by blast
    with c n show "awaited (sus_awaiter c) < nextHandle s' \<and>
        awaited (sus_awaiter c) \<notin> promise ` set (queue s')"
      unfolding q by (metis less_le_trans)
  qed
  from wf sub have "distinct (map requestId (queue s'))" "distinct (map promise (queue s'))"
    "requestId ` set (queue s') \<subseteq> ids'"
    "\<forall>h rid p due. timers s' h = Some (rid, p, due) \<longrightarrow>
        p = h \<and> (\<exists>e \<in> set (queue s'). promise e = h \<and> requestId e = rid)"
    by (auto simp: wellformed_def q t)
  with a' b' c' show ?thesis
    unfolding wellformed_def by blast
qed

lemma queueRequest_wellformed:
  assumes "wellformed ids s" and "rid \<notin> ids"
  shows "wellformed (insert rid ids) (snd (queueRequest now s fn tokens prio ms rid start))"
proof -
  let ?h = "nextHandle s"
  let ?e = "\<lparr>requestFunction = fn, estimatedTokens = tokens, priority = prio, requestId = rid,
             startTime = start, promise = ?h, timeout = ?h\<rparr>"
  let ?s' = "snd (queueRequest now s fn tokens prio ms rid start)"
  have q: "set (queue ?s') = insert ?e (set (queue s))"
    and t: "timers ?s' = (timers s)(?h \<mapsto> (rid, ?h, now + ms))"
    and st: "settled ?s' = settled s" and n: "nextHandle ?s' = Suc ?h"
    and fl: "inflight ?s' = inflight s"
    by (auto simp: queueRequest_def Let_def)
  from assms have fresh_id: "rid \<notin> requestId ` set (queue s)"
    and fresh_p: "?h \<notin> promise ` set (queue s)"
    by (auto simp: wellformed_def)
  with assms(1) have d1: "distinct (map requestId (queue ?s'))"
    and d2: "distinct (map promise (queue ?s'))"
    by (auto simp: wellformed_def queueRequest_def Let_def)
  from assms(1) have sub: "requestId ` set (queue ?s') \<subseteq> insert rid ids"
    unfolding q by (auto simp: wellformed_def)
  have none: "settled s ?h = None"
  proof (cases "settled s ?h")
    case (Some x)
    with assms(1) have "?h < ?h" unfolding wellformed_def by blast
    then show ?thesis by simp
  qed simp
  have e: "\<forall>e \<in> set (queue ?s').
        promise e < nextHandle ?s' \<and> timeout e = promise e \<and> settled ?s' (promise e) = None \<and>
        (\<exists>due. timers ?s' (promise e) = Some (requestId e, promise e, due))"
  proof
    fix e assume "e \<in> set (queue ?s')"
    then consider "e = ?e" | "e \<in> set (queue s)" unfolding q by auto
    then show "promise e < nextHandle ?s' \<and> timeout e = promise e \<and> settled ?s' (promise e) = None \<and>
        (\<exists>due. timers ?s' (promise e) = Some (requestId e, promise e, due))"
    proof cases
      case 1
      with none show ?thesis by (simp add: t st n)
    next
      case 2
      with assms(1) have "promise e < ?h" "timeout e = promise e" "settled s (promise e) = None"
        "\<exists>due. timers s (promise e) = Some (requestId e, promise e, due)"
        by (auto simp: wellformed_def)
      then show ?thesis by (simp add: t st n)
    qed
  qed
  have tm: "\<forall>h rid' p due. timers ?s' h = Some (rid', p, due) \<longrightarrow>
        p = h \<and> (\<exists>e \<in> set (queue ?s'). promise e = h \<and> requestId e = rid')"
  proof (intro allI impI)
    fix h rid' p due assume a: "timers ?s' h = Some (rid', p, due)"
    show "p = h \<and> (\<exists>e \<in> set (queue ?s'). promise e = h \<and> requestId e = rid')"
    proof (cases "h = ?h")
      case True
      with a show ?thesis unfolding q by (simp add: t)
    next
      case False
      with a have "timers s h = Some (rid', p, due)" by (simp add: t)
      with assms(1) have "p = h \<and> (\<exists>e \<in> set (queue s). promise e = h \<and> requestId e = rid')"
        unfolding wellformed_def by blast
      then show ?thesis unfolding q by auto
    qed
  qed
  from assms(1) have sb: "\<forall>p x. settled ?s' p = Some x \<longrightarrow> p < nextHandle ?s'"
    by (auto simp: wellformed_def st n less_Suc_eq)
  have fs: "\<forall>k c. inflight ?s' k = Some c \<longrightarrow>
        awaited (sus_awaiter c) < nextHandle ?s' \<and>
        awaited (sus_awaiter c) \<notin> promise ` set (queue ?s')"
  proof (intro allI impI)
    fix k c assume "inflight ?s' k = Some c"
    with assms(1) have "awaited (sus_awaiter c) < ?h"
      "awaited (sus_awaiter c) \<notin> promise ` set (queue s)"
      unfolding wellformed_def fl by blast+
    then show "awaited (sus_awaiter c) < nextHandle ?s' \<and>
        awaited (sus_awaiter c) \<notin> promise ` set (queue ?s')"
      unfolding q n by auto
  qed
  from d1 d2 sub e tm sb fs show ?thesis
    unfolding wellformed_def by blast
qed

lemma executeRequest_wellformed:
  assumes "wellformed ids s" and "rid \<notin> ids"
  shows "wellformed (insert rid ids) (snd (executeRequest now s fn options rid))"
proof (cases "the_estimatedTokens options \<le> availableTokens s")
  case True
  let ?p = "nextHandle s"
  let ?s' = "executeImmediate (s\<lparr>nextHandle := ?p + 1\<rparr>) fn (the_estimatedTokens options) rid now
               (Caller ?p)"
  from True have eq: "snd (executeRequest now s fn options rid) = ?s'"
    by (simp add: executeRequest_def Let_def)
  from assms(1) have "?p \<notin> promise ` set (queue s)"
    by (auto simp: wellformed_def)
  then have "wellformed (insert rid ids) ?s'"
    by (intro wellformed_frame [OF assms(1)])
       (auto simp: executeImmediate_def split: if_splits)
  with eq show ?thesis by simp
next
  case False
  with queueRequest_wellformed [OF assms] show ?thesis
    by (simp add: executeRequest_def Let_def)
qed

text \<open>
  Taking one entry out of the queue and disarming its timer; its promise may be settled
  at once, or be left to a call that is suspended.
\<close>

lemma wellformed_drop:
  assumes wf: "wellformed ids s"
    and e: "e \<in> set (queue s)"
    and q': "set (queue s') \<subseteq> set (queue s)" "e \<notin> set (queue s')"
      "set (queue s) \<subseteq> insert e (set (queue s'))"
    and d': "distinct (map requestId (queue s'))" "distinct (map promise (queue s'))"
    and t': "timers s' = (timers s)(promise e := None)"
    and s': "\<forall>p. p \<noteq> promise e \<longrightarrow> settled s' p = settled s p"
    and n': "nextHandle s' = nextHandle s"
    and f': "\<forall>k c. inflight s' k = Some c \<longrightarrow>
               inflight s k = Some c \<or> awaited (sus_awaiter c) = promise e"
  shows "wellformed ids s'"
proof -
  from wf have inj: "inj_on promise (set (queue s))"
    by (simp add: wellformed_def distinct_map)
  have ne: "promise e' \<noteq> promise e" if "e' \<in> set (queue s')" for e'
  proof
    assume "promise e' = promise e"
    with inj e q'(1) that have "e' = e" by (auto dest: inj_onD)
    with q'(2) that show False by simp
  qed
  from wf e have pe: "promise e < nextHandle s"
    by (simp add: wellformed_def)
  have a: "\<forall>e' \<in> set (queue s').
        promise e' < nextHandle s' \<and> timeout e' = promise e' \<and> settled s' (promise e') = None \<and>
        (\<exists>due. timers s' (promise e') = Some (requestId e', promise e', due))"
  proof
    fix e' assume m: "e' \<in> set (queue s')"
    with q'(1) have "e' \<in> set (queue s)" by auto
    with wf have "promise e' < nextHandle s" "timeout e' = promise e'"
      "settled s (promise e') = None"
      "\<exists>due. timers s (promise e') = Some (requestId e', promise e', due)"
      by (auto simp: wellformed_def)
    with ne [OF m] s' show "promise e' < nextHandle s' \<and> timeout e' = promise e' \<and>
        settled s' (promise e') = None \<and>
        (\<exists>due. timers s' (promise e') = Some (requestId e', promise e', due))"
      by (simp add: t' n')
  qed
  have b: "\<forall>h rid p due. timers s' h = Some (rid, p, due) \<longrightarrow>
        p = h \<and> (\<exists>e' \<in> set (queue s'). promise e' = h \<and> requestId e' = rid)"
  proof (intro allI impI)
    fix h rid p due assume t: "timers s' h = Some (rid, p, due)"
    then have h: "h \<noteq> promise e" and "timers s h = Some (rid, p, due)"
      by (auto simp: t' split: if_splits)
    with wf obtain e' where e': "p = h" "e' \<in> set (queue s)" "promise e' = h" "requestId e' = rid"
      unfolding wellformed_def by blast
    from e'(2) q'(3) have "e' = e \<or> e' \<in> set (queue s')"
      by auto
    with h e'(3) have "e' \<in> set (queue s')"
      by auto
    with e' show "p = h \<and> (\<exists>e' \<in> set (queue s'). promise e' = h \<and> requestId e' = rid)"
      by auto
  qed
  from wf have sb: "\<forall>p y. settled s p = Some y \<longrightarrow> p < nextHandle s"
    by (simp add: wellformed_def)
  have c: "\<forall>p y. settled s' p = Some y \<longrightarrow> p < nextHandle s'"
  proof (intro allI impI)
    fix p y assume "settled s' p = Some y"
    with s' sb pe show "p < nextHandle s'"
      unfolding n' by (cases "p = promise e") auto
  qed
  from wf have fl: "\<forall>k c. inflight s k = Some c \<longrightarrow>
        awaited (sus_awaiter c) < nextHandle s \<and>
        awaited (sus_awaiter c) \<notin> promise ` set (queue s)"
    by (simp add: wellformed_def)
  have f: "\<forall>k c. inflight s' k = Some c \<longrightarrow>
        awaited (sus_awaiter c) < nextHandle s' \<and>
        awaited (sus_awaiter c) \<notin> promise ` set (queue s')"
  proof (intro allI impI)
    fix k c assume "inflight s' k = Some c"
    with f' consider "inflight s k = Some c" | "awaited (sus_awaiter c) = promise e"
      by blast
    then show "awaited (sus_awaiter c) < nextHandle s' \<and>
        awaited (sus_awaiter c) \<notin> promise ` set (queue s')"
    proof cases
      case 1
      with fl q'(1) show ?thesis unfolding n' by blast
    next
      case 2
      have "promise e \<notin> promise ` set (queue s')"
      proof
        assume "promise e \<in> promise ` set (queue s')"
        then obtain e' where "e' \<in> set (queue s')" "promise e' = promise e"
          by (auto simp: eq_commute)
        with ne [of e'] show False by simp
      qed
      with pe 2 show ?thesis unfolding n' by simp
    qed
  qed
  from wf q'(1) have "requestId ` set (queue s') \<subseteq> ids"
    by (auto simp: wellformed_def)
  with d' a b c f show ?thesis
    unfolding wellformed_def by blast
qed

lemma processLoop_wellformed:
  assumes wf: "wellformed ids s"
  shows "wellformed ids (processLoop s)"
proof (cases "queue s")
  case Nil
  with wf show ?thesis by (simp add: processLoop_def)
next
  case (Cons e rest)
  show ?thesis
  proof (cases "availableTokens s > 0 \<and> availableTokens s \<ge> estimatedTokens e")
    case False
    with Cons wf show ?thesis by (auto simp: processLoop_def)
  next
    case True
    let ?s' = "executeImmediate (clearTimeout (timeout e) (s\<lparr>queue := rest\<rparr>))
                (requestFunction e) (estimatedTokens e) (requestId e) (startTime e)
                (Loop (promise e))"
    from True Cons have eq: "processLoop s = ?s'"
      by (simp add: processLoop_def)
    from wf Cons have e: "e \<in> set (queue s)" "timeout e = promise e"
      and d: "distinct (map requestId (e # rest))" "distinct (map promise (e # rest))"
      by (auto simp: wellformed_def)
    have "wellformed ids ?s'"
    proof (rule wellformed_drop [OF wf e(1)])
      show "set (queue ?s') \<subseteq> set (queue s)" by (auto simp: Cons)
      from d(2) show "e \<notin> set (queue ?s')" by auto
      show "set (queue s) \<subseteq> insert e (set (queue ?s'))" by (auto simp: Cons)
      from d show "distinct (map requestId (queue ?s'))" "distinct (map promise (queue ?s'))"
        by simp_all
      show "timers ?s' = (timers s)(promise e := None)"
        by (simp add: clearTimeout_def e(2))
      show "\<forall>p. p \<noteq> promise e \<longrightarrow> settled ?s' p = settled s p" by simp
      show "nextHandle ?s' = nextHandle s" by simp
      show "\<forall>k c. inflight ?s' k = Some c \<longrightarrow>
               inflight s k = Some c \<or> awaited (sus_awaiter c) = promise e"
        by (auto simp: executeImmediate_def split: if_splits)
    qed
    with eq show ?thesis by simp
  qed
qed

lemma processQueue_wellformed: "wellformed ids s \<Longrightarrow> wellformed ids (processQueue s)"
  by (simp add: processQueue_def processLoop_wellformed)

lemma refill_wellformed:
  assumes "wellformed ids s"
  shows "wellformed ids (refill s)"
  unfolding refill_def
  by (rule processQueue_wellformed, rule wellformed_frame [OF assms]) auto

lemma settle_wellformed:
  assumes wf: "wellformed ids s" and p: "p < nextHandle s" "p \<notin> promise ` set (queue s)"
  shows "wellformed ids (settle p r s)"
proof (cases "settled s p")
  case (Some a)
  with wf show ?thesis by (simp add: settle_def)
next
  case None
  then have eq: "settle p r s = s\<lparr>settled := (settled s)(p \<mapsto> r)\<rparr>"
    by (simp add: settle_def)
  from wf p have "wellformed ids (s\<lparr>settled := (settled s)(p \<mapsto> r)\<rparr>)"
    unfolding wellformed_def by auto
  with eq show ?thesis by simp
qed

lemma resume_wellformed:
  assumes wf: "wellformed ids s"
  shows "wellformed ids (resume now s k)"
proof (cases "inflight s k")
  case None
  with wf show ?thesis by (simp add: resume_def)
next
  case (Some c)
  let ?s0 = "s\<lparr>inflight := (inflight s)(k := None)\<rparr>"
  obtain r s' where ex: "executeImmediate_resumed now ?s0 c = (r, s')"
    by (cases "executeImmediate_resumed now ?s0 c")
  have f: "queue s' = queue s" "timers s' = timers s" "settled s' = settled s"
    "nextHandle s' = nextHandle s" "inflight s' = (inflight s)(k := None)"
    using executeImmediate_resumed_fields [of now ?s0 c] ex by simp_all
  have wf': "wellformed ids s'"
    by (rule wellformed_frame [OF wf]) (auto simp: f split: if_splits)
  from wf Some have p: "awaited (sus_awaiter c) < nextHandle s'"
    "awaited (sus_awaiter c) \<notin> promise ` set (queue s')"
    unfolding wellformed_def f by blast+
  have st: "wellformed ids (settle (awaited (sus_awaiter c)) r s')"
    by (rule settle_wellformed [OF wf' p])
  show ?thesis
  proof (cases "sus_awaiter c")
    case (Caller q)
    with Some ex st show ?thesis by (simp add: resume_def)
  next
    case (Loop q)
    with Some ex st processLoop_wellformed [of ids "settle q r s'"] show ?thesis
      by (simp add: resume_def)
  qed
qed


lemma fireTimer_wellformed:
  assumes wf: "wellformed ids s"
  shows "wellformed ids (fireTimer now s h)"
proof (cases "timers s h")
  case None
  with wf show ?thesis by (simp add: fireTimer_def)
next
  case (Some a)
  obtain rid p due where a: "a = (rid, p, due)" by (cases a)
  show ?thesis
  proof (cases "now < due")
    case True
    with Some a wf show ?thesis by (simp add: fireTimer_def)
  next
    case False
    from wf Some a obtain e where e: "p = h" "e \<in> set (queue s)" "promise e = h" "requestId e = rid"
      unfolding wellformed_def by blast
    from wf e(2) have e': "timeout e = promise e" "settled s (promise e) = None"
      by (auto simp: wellformed_def)
    from wf have d: "distinct (map requestId (queue s))" "distinct (map promise (queue s))"
      by (simp_all add: wellformed_def)
    let ?P = "\<lambda>entry. requestId entry = rid"
    let ?i = "nat (findIndex ?P (queue s))"
    let ?q' = "take ?i (queue s) @ drop (Suc ?i) (queue s)"
    from e(2,4) have found: "findIndex ?P (queue s) \<noteq> -1"
      by (auto simp: findIndex_none)
    with findIndex_range [of ?P "queue s"] have i: "?i < length (queue s)"
      by auto
    from found have "requestId (queue s ! ?i) = rid"
      by (rule findIndex_first)
    with d(1) e(2,4) i have removed: "queue s ! ?i = e"
      by (auto simp: distinct_map dest: inj_onD)
    let ?s1 = "s\<lparr>timers := (timers s)(h := None)\<rparr>"
    have rm: "removeFromQueue ?s1 rid = clearTimeout (timeout e) (?s1\<lparr>queue := ?q'\<rparr>)"
      using found removed by (simp add: removeFromQueue_def Let_def)
    let ?s' = "settle p (Inl (''Request '' @ rid @ '' timed out in queue'')) (removeFromQueue ?s1 rid)"
    have ft: "fireTimer now s h = ?s'"
      using Some a False by (simp add: fireTimer_def)
    have q': "queue ?s' = ?q'"
      by (simp add: rm)
    have "wellformed ids ?s'"
    proof (rule wellformed_drop [OF wf e(2)])
      show "set (queue ?s') \<subseteq> set (queue s)"
        unfolding q' by (auto dest: in_set_takeD in_set_dropD)
      have "requestId e \<notin> requestId ` set ?q'"
        using remove_nth_distinct [OF d(1) i] removed by simp
      then show "e \<notin> set (queue ?s')"
        unfolding q' by blast
      have "queue s = take ?i (queue s) @ queue s ! ?i # drop (Suc ?i) (queue s)"
        using i by (simp add: id_take_nth_drop)
      then have "set (queue s) = set (take ?i (queue s) @ queue s ! ?i # drop (Suc ?i) (queue s))"
        by (rule arg_cong)
      then have "set (queue s) \<subseteq> insert (queue s ! ?i) (set ?q')"
        by (simp only: set_append set_simps) blast
      with removed show "set (queue s) \<subseteq> insert e (set (queue ?s'))"
        unfolding q' by simp
      from distinct_remove_nth [OF d(1), of ?i] show "distinct (map requestId (queue ?s'))"
        unfolding q' by (simp add: take_map drop_map)
      from distinct_remove_nth [OF d(2), of ?i] show "distinct (map promise (queue ?s'))"
        unfolding q' by (simp add: take_map drop_map)
      show "timers ?s' = (timers s)(promise e := None)"
        by (simp add: rm clearTimeout_def e' e(3))
      show "\<forall>p'. p' \<noteq> promise e \<longrightarrow> settled ?s' p' = settled s p'"
        using e(1,3) by (simp add: settle_def)
      show "nextHandle ?s' = nextHandle s"
        by simp
      show "\<forall>k c. inflight ?s' k = Some c \<longrightarrow>
               inflight s k = Some c \<or> awaited (sus_awaiter c) = promise e"
        by simp
    qed
    with ft show ?thesis by simp
  qed
qed

lemma step_wellformed:
  assumes "wellformed ids s" and "set (submittedIds [ev]) \<inter> ids = {}"
  shows "wellformed (ids \<union> set (submittedIds [ev])) (step s ev)"
proof (cases ev)
  case (Pair now a)
  show ?thesis
  proof (cases a)
    case (ExecuteRequest fn options rid)
    with Pair assms(2) have "rid \<notin> ids" by auto
    from executeRequest_wellformed [OF assms(1) this] Pair ExecuteRequest show ?thesis by simp
  next
    case ProcessQueue
    with Pair processQueue_wellformed [OF assms(1)] show ?thesis by simp
  next
    case Refill
    with Pair refill_wellformed [OF assms(1)] show ?thesis by simp
  next
    case (FireTimer h)
    with Pair fireTimer_wellformed [OF assms(1)] show ?thesis by simp
  next
    case (Settles k)
    with Pair resume_wellformed [OF assms(1)] show ?thesis by simp
  qed
qed

lemma run_wellformed:
  assumes "wellformed ids s" and "distinct (submittedIds evs)" and "set (submittedIds evs) \<inter> ids = {}"
  shows "wellformed (ids \<union> set (submittedIds evs)) (run s evs)"
  using assms
proof (induction evs arbitrary: s ids)
  case Nil
  then show ?case by (simp add: run_def)
next
  case (Cons ev evs)
  have split: "submittedIds (ev # evs) = submittedIds [ev] @ submittedIds evs"
    using submittedIds_append [of "[ev]" evs] by simp
  with Cons.prems have a: "set (submittedIds [ev]) \<inter> ids = {}"
    and b: "distinct (submittedIds evs)"
    and c: "set (submittedIds evs) \<inter> (ids \<union> set (submittedIds [ev])) = {}"
    by auto
  from Cons.IH [OF step_wellformed [OF Cons.prems(1) a] b c]
  have "wellformed (ids \<union> set (submittedIds [ev]) \<union> set (submittedIds evs)) (run (step s ev) evs)" .
  moreover have "run s (ev # evs) = run (step s ev) evs" by (simp add: run_def)
  ultimately show ?case
    by (simp add: split Un_assoc)
qed

text \<open>
  C7. Take any state the limiter reaches from its construction by a run whose request
  ids are distinct, and any queued entry whose timer is due. When the timer fires, the
  entry leaves the queue and its promise is rejected with the error
  \<open>Request <id> timed out in queue\<close>. Whatever happens afterwards (further requests
  with other ids, queue processing, refills, other timers, request functions settling),
  the request is never queued again, no \<open>Executing immediate request\<close> line is ever
  written for it, so it is never dispatched, and its promise stays rejected with the
  timeout error.
\<close>

theorem queue_timeout:
  assumes "distinct (submittedIds (before @ after))"
    and "e \<in> set (queue (run (newGroqRateLimiter tpm) before))"
    and "timers (run (newGroqRateLimiter tpm) before) (timeout e) = Some (rid, p, due)"
    and "due \<le> now"
  shows "rid = requestId e \<and> p = promise e \<and>
         requestId e \<notin> requestId ` set (queue (fireTimer now (run (newGroqRateLimiter tpm) before) (timeout e))) \<and>
         settled (fireTimer now (run (newGroqRateLimiter tpm) before) (timeout e)) (promise e)
           = Some (Inl (''Request '' @ requestId e @ '' timed out in queue'')) \<and>
         requestId e \<notin> requestId ` set (queue
            (run (fireTimer now (run (newGroqRateLimiter tpm) before) (timeout e)) after)) \<and>
         settled (run (fireTimer now (run (newGroqRateLimiter tpm) before) (timeout e)) after) (promise e)
           = Some (Inl (''Request '' @ requestId e @ '' timed out in queue'')) \<and>
         (\<exists>new. executing (run (fireTimer now (run (newGroqRateLimiter tpm) before) (timeout e)) after)
                  = executing (run (newGroqRateLimiter tpm) before) @ new \<and>
                requestId e \<notin> set new)"
proof -
  let ?s = "run (newGroqRateLimiter tpm) before"
  let ?x = "Inl (''Request '' @ requestId e @ '' timed out in queue'') :: err + response"
  from assms(1) have db: "distinct (submittedIds before)"
    and disj: "set (submittedIds before) \<inter> set (submittedIds after) = {}"
    by (simp_all add: submittedIds_append)
  have wf: "wellformed (set (submittedIds before)) ?s"
    using run_wellformed [OF wellformed_initial db, of tpm] by simp
  with assms(2) have e: "timeout e = promise e" "settled ?s (promise e) = None"
    "\<exists>d. timers ?s (promise e) = Some (requestId e, promise e, d)"
    "requestId e \<in> set (submittedIds before)"
    by (auto simp: wellformed_def)
  with assms(3) have eq: "rid = requestId e" "p = promise e"
    by auto
  from wf have d: "distinct (map requestId (queue ?s))"
    by (simp add: wellformed_def)
  from fireTimer_due [OF d assms(3) _ assms(4)] e(2) eq
  have g: "gone (requestId e) (promise e) ?x (fireTimer now ?s (timeout e))"
    and ex: "executing (fireTimer now ?s (timeout e)) = executing ?s"
    by simp_all
  from e(4) disj have "requestId e \<notin> set (submittedIds after)"
    by auto
  from run_gone [OF g this] g ex eq show ?thesis
    by (simp add: gone_def)
qed

theorem queue_timeout_witness:
  "distinct (submittedIds (oneQueued @ [(60000, Refill), (61000, Settles 0)])) \<and>
   queuedR1 \<in> set (queue (run (newGroqRateLimiter (Some 100)) oneQueued)) \<and>
   timers (run (newGroqRateLimiter (Some 100)) oneQueued) (timeout queuedR1) = Some (''r1'', 1, 101) \<and>
   (101::int) \<le> 200 \<and>
   queue (run (fireTimer 200 (run (newGroqRateLimiter (Some 100)) oneQueued) (timeout queuedR1))
            [(60000, Refill), (61000, Settles 0)]) = [] \<and>
   executing (run (fireTimer 200 (run (newGroqRateLimiter (Some 100)) oneQueued) (timeout queuedR1))
            [(60000, Refill), (61000, Settles 0)]) = [''r0''] \<and>
   settled (run (fireTimer 200 (run (newGroqRateLimiter (Some 100)) oneQueued) (timeout queuedR1))
            [(60000, Refill), (61000, Settles 0)]) (promise queuedR1)
     = Some (Inl ''Request r1 timed out in queue'')"
proof -
  have h1: "distinct (submittedIds (oneQueued @ [(60000, Refill), (61000, Settles 0)]))"
    by (simp add: oneQueued_def)
  have h2: "queuedR1 \<in> set (queue (run (newGroqRateLimiter (Some 100)) oneQueued))"
    by (simp add: queuedR1_def limiter_examples limiter_defs)
  have h3: "timers (run (newGroqRateLimiter (Some 100)) oneQueued) (timeout queuedR1)
              = Some (''r1'', 1, 101)"
    by (simp add: queuedR1_def limiter_examples limiter_defs)
  have h4: "(101::int) \<le> 200"
    by simp
  have ev: "queue (run (fireTimer 200 (run (newGroqRateLimiter (Some 100)) oneQueued)
                (timeout queuedR1)) [(60000, Refill), (61000, Settles 0)]) = []"
    "executing (run (fireTimer 200 (run (newGroqRateLimiter (Some 100)) oneQueued)
                (timeout queuedR1)) [(60000, Refill), (61000, Settles 0)]) = [''r0'']"
    by (simp_all add: queuedR1_def limiter_examples limiter_defs)
  have id: "requestId queuedR1 = ''r1''"
    by (simp add: queuedR1_def)
  from queue_timeout [OF h1 h2 h3 h4] h1 h2 h3 ev id show ?thesis
    by auto
qed


end
